theory Spec2Isabelle
  imports Main "HOL-Library.Word"
begin

section \<open>JavaScript strings and values\<close>

text \<open>
  A JavaScript string is a sequence of 16-bit code units. \<open>fs.readFileSync(p, "utf8")\<close>
  returns such a string and \<open>res.json\<close> hands one to the response writer; the UTF-8
  decoding and encoding at the two ends happen outside the handler.
\<close>

type_synonym char16 = "16 word"
type_synonym jsstring = "char16 list"

definition ascii :: "string \<Rightarrow> jsstring" where
  "ascii s = map of_char s"

text \<open>
  The values that \<open>JSON.parse\<close> can build, plus arrays that carry named own properties
  (an assignment \<open>a.name = v\<close> on an array adds one). Properties are kept in the order in
  which the engine enumerates them. The type \<open>'n\<close> stands for the Number type (IEEE
  doubles).
\<close>

datatype 'n jsval =
    Null
  | Boolean bool
  | Number 'n
  | String jsstring
  | Array "'n jsval list" "(jsstring \<times> 'n jsval) list"
  | Object "(jsstring \<times> 'n jsval) list"

datatype js_error = SyntaxError | TypeError | RangeError | SystemError string

text \<open>
  What the engine contributes and the model leaves open: the conversions of Numbers from
  and to text, their tests, and whether serialising a given value exhausts the call
  stack, which depends on the engine and on the size of its stack.
\<close>

record 'n engine =
  StringToNumber :: "jsstring \<Rightarrow> 'n"
  NumberToString :: "'n \<Rightarrow> jsstring"
  isFinite :: "'n \<Rightarrow> bool"
  isZeroOrNaN :: "'n \<Rightarrow> bool"
  stack_overflow :: "'n jsval \<Rightarrow> bool"

section \<open>JSON.stringify\<close>

text \<open>A lower-case hexadecimal digit, and the escape \<open>\uXXXX\<close> of a code unit.\<close>

definition hex_digit :: "int \<Rightarrow> char16" where
  "hex_digit d = (if d < 10 then of_int (48 + d) else of_int (87 + d))"

definition unicode_escape :: "char16 \<Rightarrow> jsstring" where
  "unicode_escape c =
     [0x5C, 0x75, hex_digit (uint c div 4096), hex_digit (uint c div 256 mod 16),
      hex_digit (uint c div 16 mod 16), hex_digit (uint c mod 16)]"

definition is_lead_surrogate :: "char16 \<Rightarrow> bool" where
  "is_lead_surrogate c \<longleftrightarrow> 0xD800 \<le> c \<and> c \<le> 0xDBFF"

definition is_trail_surrogate :: "char16 \<Rightarrow> bool" where
  "is_trail_surrogate c \<longleftrightarrow> 0xDC00 \<le> c \<and> c \<le> 0xDFFF"

text \<open>The body of QuoteJSONString: the characters between the two quotation marks.\<close>

fun quote_chars :: "jsstring \<Rightarrow> jsstring" where
  "quote_chars [] = []"
| "quote_chars [c] =
     (if c = 0x08 then [0x5C, 0x62]
      else if c = 0x09 then [0x5C, 0x74]
      else if c = 0x0A then [0x5C, 0x6E]
      else if c = 0x0C then [0x5C, 0x66]
      else if c = 0x0D then [0x5C, 0x72]
      else if c = 0x22 then [0x5C, 0x22]
      else if c = 0x5C then [0x5C, 0x5C]
      else if c < 0x20 \<or> is_lead_surrogate c \<or> is_trail_surrogate c then unicode_escape c
      else [c])"
| "quote_chars (c # d # cs) =
     (if is_lead_surrogate c \<and> is_trail_surrogate d then c # d # quote_chars cs
      else quote_chars [c] @ quote_chars (d # cs))"

definition QuoteJSONString :: "jsstring \<Rightarrow> jsstring" where
  "QuoteJSONString s = [0x22] @ quote_chars s @ [0x22]"

fun join :: "jsstring list \<Rightarrow> jsstring" where
  "join [] = []"
| "join [x] = x"
| "join (x # y # ys) = x @ [0x2C] @ join (y # ys)"

text \<open>
  The text of a value (SerializeJSONProperty, with no replacer and no indentation). An
  array is serialised from its elements alone; its named properties are not visited. A
  Number that is not finite is written \<open>null\<close>.
\<close>

fun serialize :: "'n engine \<Rightarrow> 'n jsval \<Rightarrow> jsstring" where
  "serialize N Null = ascii ''null''"
| "serialize N (Boolean b) = (if b then ascii ''true'' else ascii ''false'')"
| "serialize N (Number n) = (if isFinite N n then NumberToString N n else ascii ''null'')"
| "serialize N (String s) = QuoteJSONString s"
| "serialize N (Array xs ps) = [0x5B] @ join (map (serialize N) xs) @ [0x5D]"
| "serialize N (Object ps) =
     [0x7B] @ join (map (\<lambda>p. QuoteJSONString (fst p) @ [0x3A] @ serialize N (snd p)) ps) @ [0x7D]"

text \<open>
  The serialiser calls itself once for every level of nesting. On a value nested deeply
  enough it exhausts the call stack and \<open>JSON.stringify\<close> throws a RangeError. Where
  that happens is the engine's matter; a value nested no more than two levels deep, as
  the handler's own literals are, exhausts no stack.
\<close>

fun depth :: "'n jsval \<Rightarrow> nat" where
  "depth (Array xs ps) = Suc (fold max (map depth xs) 0)"
| "depth (Object ps) = Suc (fold max (map (\<lambda>p. depth (snd p)) ps) 0)"
| "depth v = 0"

definition exhausts_stack :: "'n engine \<Rightarrow> 'n jsval \<Rightarrow> bool" where
  "exhausts_stack N v \<longleftrightarrow> 2 < depth v \<and> stack_overflow N v"

text \<open>
  \<open>JSON.stringify(value)\<close>, as \<open>res.json\<close> calls it under Express's default settings:
  the text, or the thrown RangeError.
\<close>

definition JSON_stringify :: "'n engine \<Rightarrow> 'n jsval \<Rightarrow> js_error + jsstring" where
  "JSON_stringify N v = (if exhausts_stack N v then Inl RangeError else Inr (serialize N v))"

section \<open>JSON.parse\<close>

subsection \<open>Tokens\<close>

datatype token =
    TLBrace | TRBrace | TLBracket | TRBracket | TColon | TComma
  | TString jsstring | TNumber jsstring | TTrue | TFalse | TNull

definition is_ws :: "char16 \<Rightarrow> bool" where
  "is_ws c \<longleftrightarrow> c = 0x09 \<or> c = 0x0A \<or> c = 0x0D \<or> c = 0x20"

definition is_digit :: "char16 \<Rightarrow> bool" where
  "is_digit c \<longleftrightarrow> 0x30 \<le> c \<and> c \<le> 0x39"

definition hex_value :: "char16 \<Rightarrow> int option" where
  "hex_value c =
     (if is_digit c then Some (uint c - 48)
      else if 0x61 \<le> c \<and> c \<le> 0x66 then Some (uint c - 87)
      else if 0x41 \<le> c \<and> c \<le> 0x46 then Some (uint c - 55)
      else None)"

definition hex4 :: "char16 \<Rightarrow> char16 \<Rightarrow> char16 \<Rightarrow> char16 \<Rightarrow> char16 option" where
  "hex4 a b c d =
     (case (hex_value a, hex_value b, hex_value c, hex_value d) of
        (Some x, Some y, Some z, Some w) \<Rightarrow> Some (of_int (((x * 16 + y) * 16 + z) * 16 + w))
      | _ \<Rightarrow> None)"

definition escape_char :: "char16 \<Rightarrow> char16 option" where
  "escape_char e =
     (if e = 0x22 \<or> e = 0x2F \<or> e = 0x5C then Some e
      else if e = 0x62 then Some 0x08
      else if e = 0x66 then Some 0x0C
      else if e = 0x6E then Some 0x0A
      else if e = 0x72 then Some 0x0D
      else if e = 0x74 then Some 0x09
      else None)"

text \<open>
  The characters of a string literal after its opening quotation mark: the decoded
  string and the input left after the closing quotation mark. A control character, a bad
  escape or the end of the input inside the literal is a syntax error (\<open>None\<close>).
\<close>

fun scan_string :: "jsstring \<Rightarrow> jsstring \<Rightarrow> (jsstring \<times> jsstring) option" where
  "scan_string acc [] = None"
| "scan_string acc (c # cs) =
     (if c = 0x22 then Some (acc, cs)
      else if c < 0x20 then None
      else if c \<noteq> 0x5C then scan_string (acc @ [c]) cs
      else (case cs of
              [] \<Rightarrow> None
            | e # es \<Rightarrow>
                if e = 0x75 then
                  (case es of
                     h1 # h2 # h3 # h4 # rest \<Rightarrow>
                       (case hex4 h1 h2 h3 h4 of
                          None \<Rightarrow> None
                        | Some u \<Rightarrow> scan_string (acc @ [u]) rest)
                   | _ \<Rightarrow> None)
                else
                  (case escape_char e of
                     None \<Rightarrow> None
                   | Some x \<Rightarrow> scan_string (acc @ [x]) es)))"

definition scan_fraction :: "jsstring \<Rightarrow> (jsstring \<times> jsstring) option" where
  "scan_fraction cs =
     (case cs of
        [] \<Rightarrow> Some ([], [])
      | c # r \<Rightarrow>
          if c = 0x2E then
            (if takeWhile is_digit r = [] then None
             else Some (c # takeWhile is_digit r, dropWhile is_digit r))
          else Some ([], cs))"

definition scan_exponent :: "jsstring \<Rightarrow> (jsstring \<times> jsstring) option" where
  "scan_exponent cs =
     (case cs of
        [] \<Rightarrow> Some ([], [])
      | c # r \<Rightarrow>
          if c = 0x65 \<or> c = 0x45 then
            (let sg = (case r of [] \<Rightarrow> [] | s # t \<Rightarrow> if s = 0x2B \<or> s = 0x2D then [s] else []);
                 r' = drop (length sg) r
             in if takeWhile is_digit r' = [] then None
                else Some (c # sg @ takeWhile is_digit r', dropWhile is_digit r'))
          else Some ([], cs))"

text \<open>
  A number literal at the head of the input: an optional minus sign, \<open>0\<close> or a digit
  sequence without a leading zero, an optional fraction, an optional exponent. The result
  is the literal's text and the rest of the input.
\<close>

definition scan_number :: "jsstring \<Rightarrow> (jsstring \<times> jsstring) option" where
  "scan_number cs =
     (let sg = (case cs of [] \<Rightarrow> [] | c # _ \<Rightarrow> if c = 0x2D then [c] else []);
          r0 = drop (length sg) cs
      in case r0 of
           [] \<Rightarrow> None
         | d # r1 \<Rightarrow>
             if \<not> is_digit d then None
             else
               (let ip = (if d = 0x30 then [d] else d # takeWhile is_digit r1);
                    r2 = drop (length ip) r0
                in case scan_fraction r2 of
                     None \<Rightarrow> None
                   | Some (fp, r3) \<Rightarrow>
                       (case scan_exponent r3 of
                          None \<Rightarrow> None
                        | Some (ep, r4) \<Rightarrow> Some (sg @ ip @ fp @ ep, r4))))"

text \<open>
  The tokens of a JSON text; \<open>None\<close> when some character cannot start a token or a
  literal is malformed. White space is tab, line feed, carriage return and space only.
\<close>

function tokenize :: "jsstring \<Rightarrow> token list option" where
  "tokenize [] = Some []"
| "tokenize (c # cs) =
     (if is_ws c then tokenize cs
      else if c = 0x7B then map_option ((#) TLBrace) (tokenize cs)
      else if c = 0x7D then map_option ((#) TRBrace) (tokenize cs)
      else if c = 0x5B then map_option ((#) TLBracket) (tokenize cs)
      else if c = 0x5D then map_option ((#) TRBracket) (tokenize cs)
      else if c = 0x3A then map_option ((#) TColon) (tokenize cs)
      else if c = 0x2C then map_option ((#) TComma) (tokenize cs)
      else if c = 0x22 then
        (case scan_string [] cs of
           None \<Rightarrow> None
         | Some (s, rest) \<Rightarrow> map_option ((#) (TString s)) (tokenize rest))
      else if c = 0x2D \<or> is_digit c then
        (case scan_number (c # cs) of
           None \<Rightarrow> None
         | Some (lit, rest) \<Rightarrow> map_option ((#) (TNumber lit)) (tokenize rest))
      else if take 4 (c # cs) = ascii ''true'' then map_option ((#) TTrue) (tokenize (drop 3 cs))
      else if take 5 (c # cs) = ascii ''false'' then map_option ((#) TFalse) (tokenize (drop 4 cs))
      else if take 4 (c # cs) = ascii ''null'' then map_option ((#) TNull) (tokenize (drop 3 cs))
      else None)"
  by pat_completeness auto

text \<open>Each scanner returns a proper suffix of its input, so tokenising terminates.\<close>

termination
proof -
  have string_rest: "length rest < length cs"
    if "scan_string acc cs = Some (s, rest)" for acc cs s rest
    using that
  proof (induction acc cs rule: scan_string.induct)
    case (1 acc)
    then show ?case by simp
  next
    case (2 acc c cs)
    show ?case
    proof (cases "c = 0x22 \<or> c < 0x20 \<or> c \<noteq> 0x5C")
      case True
      with 2 show ?thesis by (auto split: if_splits)
    next
      case False
      then have c: "c \<noteq> 0x22" "\<not> c < 0x20" "c = 0x5C" and c3: "\<not> c \<noteq> 0x5C"
        by auto
      with "2.prems" obtain e es where cs: "cs = e # es"
        by (cases cs) auto
      show ?thesis
      proof (cases "e = 0x75")
        case True
        with "2.prems" c cs obtain h1 h2 h3 h4 r u where
          es: "es = h1 # h2 # h3 # h4 # r" and u: "hex4 h1 h2 h3 h4 = Some u"
          and call: "scan_string (acc @ [u]) r = Some (s, rest)"
          by (simp split: list.splits option.splits)
        have "length rest < length r"
          by (rule "2.IH"(2) [OF c(1) c(2) c3 cs True es refl refl refl u call])
        with cs es show ?thesis by simp
      next
        case False
        with "2.prems" c cs obtain x where
          x: "escape_char e = Some x" and call: "scan_string (acc @ [x]) es = Some (s, rest)"
          by (simp split: option.splits)
        have "length rest < length es"
          by (rule "2.IH"(3) [OF c(1) c(2) c3 cs False x call])
        with cs show ?thesis by simp
      qed
    qed
  qed
  have fraction_rest: "length rest \<le> length cs"
    if h: "scan_fraction cs = Some (lit, rest)" for cs lit rest
  proof (cases cs)
    case Nil
    with h show ?thesis by (simp add: scan_fraction_def)
  next
    case (Cons c r)
    have "length (dropWhile is_digit r) \<le> length r"
      by (rule length_dropWhile_le)
    with h Cons show ?thesis
      by (auto simp: scan_fraction_def split: if_splits)
  qed
  have exponent_rest: "length rest \<le> length cs"
    if h: "scan_exponent cs = Some (lit, rest)" for cs lit rest
  proof (cases cs)
    case Nil
    with h show ?thesis by (simp add: scan_exponent_def)
  next
    case (Cons c r)
    have "length (dropWhile is_digit (drop k r)) \<le> length r" for k
      using length_dropWhile_le [of is_digit "drop k r"] by simp
    then have "length (dropWhile is_digit (drop k r)) \<le> Suc (length r)" for k
      using le_SucI by blast
    with h Cons show ?thesis
      by (auto simp: scan_exponent_def Let_def split: if_splits)
  qed
  have number_rest: "length rest < length cs"
    if h: "scan_number cs = Some (lit, rest)" for cs lit rest
  proof -
    define sg where "sg = (case cs of [] \<Rightarrow> [] | c # _ \<Rightarrow> if c = 0x2D then [c] else [])"
    define r0 where "r0 = drop (length sg) cs"
    have unf: "scan_number cs =
       (case r0 of
          [] \<Rightarrow> None
        | d # r1 \<Rightarrow>
            if \<not> is_digit d then None
            else
              (let ip = (if d = 0x30 then [d] else d # takeWhile is_digit r1);
                   r2 = drop (length ip) r0
               in case scan_fraction r2 of
                    None \<Rightarrow> None
                  | Some (fp, r3) \<Rightarrow>
                      (case scan_exponent r3 of
                         None \<Rightarrow> None
                       | Some (ep, r4) \<Rightarrow> Some (sg @ ip @ fp @ ep, r4))))"
      unfolding scan_number_def sg_def r0_def Let_def by (rule refl)
    from h obtain d r1 where r0: "r0 = d # r1"
      unfolding unf by (cases r0) auto
    define ip where "ip = (if d = 0x30 then [d] else d # takeWhile is_digit r1)"
    define r2 where "r2 = drop (length ip) r0"
    from h have "\<exists>fp r3 ep. scan_fraction r2 = Some (fp, r3) \<and> scan_exponent r3 = Some (ep, rest)"
      unfolding unf r0 list.case Let_def ip_def [symmetric]
      unfolding r0 [symmetric] r2_def [symmetric]
      by (auto split: if_splits option.splits prod.splits)
    then obtain fp r3 ep where
      f: "scan_fraction r2 = Some (fp, r3)" and e: "scan_exponent r3 = Some (ep, rest)"
      by blast
    have "length r0 \<le> length cs" by (simp add: r0_def)
    moreover have "length r2 < length r0" by (simp add: r2_def r0 ip_def)
    moreover note fraction_rest [OF f] exponent_rest [OF e]
    ultimately show ?thesis by linarith
  qed
  show ?thesis
  proof (relation "measure length")
    show "wf (measure length)" by simp
  next
    fix c cs x2 x y
    assume "scan_string [] cs = Some x2" "(x, y) = x2"
    then have "length y < length cs" using string_rest [of "[]" cs x y] by simp
    then show "(y, c # cs) \<in> measure length" by simp
  next
    fix c cs x2 x y
    assume "scan_number (c # cs) = Some x2" "(x, y) = x2"
    then have "length y < length (c # cs)" using number_rest [of "c # cs" x y] by simp
    then show "(y, c # cs) \<in> measure length" by simp
  qed simp_all
qed

subsection \<open>Own properties\<close>

definition index_value :: "jsstring \<Rightarrow> int" where
  "index_value k = foldl (\<lambda>a c. 10 * a + uint (c - 0x30)) 0 k"

text \<open>An array index is the canonical decimal text of an integer from 0 to \<open>2\<^sup>3\<^sup>2 - 2\<close>.\<close>

definition is_array_index :: "jsstring \<Rightarrow> bool" where
  "is_array_index k \<longleftrightarrow>
     k \<noteq> [] \<and> list_all is_digit k \<and> (hd k \<noteq> 0x30 \<or> length k = 1) \<and>
     length k \<le> 10 \<and> index_value k < 4294967295"

fun insert_index :: "jsstring \<times> 'v \<Rightarrow> (jsstring \<times> 'v) list \<Rightarrow> (jsstring \<times> 'v) list" where
  "insert_index p [] = [p]"
| "insert_index p (q # qs) =
     (if is_array_index (fst q) \<and> index_value (fst q) < index_value (fst p)
      then q # insert_index p qs else p # q # qs)"

text \<open>
  Writing an own data property of an ordinary object: an existing property keeps its
  place and takes the new value; a new one is enumerated after the existing ones, except
  that array indices come first, in ascending order.
\<close>

definition put_property ::
  "(jsstring \<times> 'v) list \<Rightarrow> jsstring \<Rightarrow> 'v \<Rightarrow> (jsstring \<times> 'v) list" where
  "put_property ps k v =
     (if k \<in> fst ` set ps then map (\<lambda>q. if fst q = k then (k, v) else q) ps
      else if is_array_index k then insert_index (k, v) ps
      else ps @ [(k, v)])"

subsection \<open>The parser: a stack machine over the tokens\<close>

datatype 'n frame =
    ArrayStart
  | ArrayValue "'n jsval list"
  | ArrayComma "'n jsval list"
  | ObjectStart
  | ObjectKey "(jsstring \<times> 'n jsval) list" jsstring
  | ObjectColon "(jsstring \<times> 'n jsval) list" jsstring
  | ObjectValue "(jsstring \<times> 'n jsval) list"
  | ObjectComma "(jsstring \<times> 'n jsval) list"

datatype 'n pstate = Parsing "'n frame list" | Done "'n jsval"

text \<open>
  A frame says what was read last inside the innermost open array or object.
  \<open>Parsing []\<close> is the start: nothing read yet. A finished value goes to the frame that
  waits for one, or ends the text when no array or object is open.
\<close>

fun accept_value :: "'n jsval \<Rightarrow> 'n frame list \<Rightarrow> 'n pstate option" where
  "accept_value v [] = Some (Done v)"
| "accept_value v (ArrayStart # st) = Some (Parsing (ArrayValue [v] # st))"
| "accept_value v (ArrayComma vs # st) = Some (Parsing (ArrayValue (vs @ [v]) # st))"
| "accept_value v (ObjectColon ps k # st) =
     Some (Parsing (ObjectValue (put_property ps k v) # st))"
| "accept_value v (_ # st) = None"

fun expects_value :: "'n frame list \<Rightarrow> bool" where
  "expects_value [] = True"
| "expects_value (ArrayStart # st) = True"
| "expects_value (ArrayComma vs # st) = True"
| "expects_value (ObjectColon ps k # st) = True"
| "expects_value (_ # st) = False"

fun parse_step :: "'n engine \<Rightarrow> 'n pstate \<Rightarrow> token \<Rightarrow> 'n pstate option" where
  "parse_step N (Done v) t = None"
| "parse_step N (Parsing st) TNull = accept_value Null st"
| "parse_step N (Parsing st) TTrue = accept_value (Boolean True) st"
| "parse_step N (Parsing st) TFalse = accept_value (Boolean False) st"
| "parse_step N (Parsing st) (TNumber lit) = accept_value (Number (StringToNumber N lit)) st"
| "parse_step N (Parsing st) (TString s) =
     (case st of
        ObjectStart # st' \<Rightarrow> Some (Parsing (ObjectKey [] s # st'))
      | ObjectComma ps # st' \<Rightarrow> Some (Parsing (ObjectKey ps s # st'))
      | _ \<Rightarrow> accept_value (String s) st)"
| "parse_step N (Parsing st) TLBracket =
     (if expects_value st then Some (Parsing (ArrayStart # st)) else None)"
| "parse_step N (Parsing st) TLBrace =
     (if expects_value st then Some (Parsing (ObjectStart # st)) else None)"
| "parse_step N (Parsing st) TRBracket =
     (case st of
        ArrayStart # st' \<Rightarrow> accept_value (Array [] []) st'
      | ArrayValue vs # st' \<Rightarrow> accept_value (Array vs []) st'
      | _ \<Rightarrow> None)"
| "parse_step N (Parsing st) TRBrace =
     (case st of
        ObjectStart # st' \<Rightarrow> accept_value (Object []) st'
      | ObjectValue ps # st' \<Rightarrow> accept_value (Object ps) st'
      | _ \<Rightarrow> None)"
| "parse_step N (Parsing st) TComma =
     (case st of
        ArrayValue vs # st' \<Rightarrow> Some (Parsing (ArrayComma vs # st'))
      | ObjectValue ps # st' \<Rightarrow> Some (Parsing (ObjectComma ps # st'))
      | _ \<Rightarrow> None)"
| "parse_step N (Parsing st) TColon =
     (case st of
        ObjectKey ps k # st' \<Rightarrow> Some (Parsing (ObjectColon ps k # st'))
      | _ \<Rightarrow> None)"

fun parse_tokens :: "'n engine \<Rightarrow> 'n pstate \<Rightarrow> token list \<Rightarrow> js_error + 'n jsval" where
  "parse_tokens N s [] = (case s of Done v \<Rightarrow> Inr v | Parsing st \<Rightarrow> Inl SyntaxError)"
| "parse_tokens N s (t # ts) =
     (case parse_step N s t of
        None \<Rightarrow> Inl SyntaxError
      | Some s' \<Rightarrow> parse_tokens N s' ts)"

text \<open>\<open>JSON.parse(text)\<close> with no reviver: the value, or a thrown SyntaxError.\<close>

definition JSON_parse :: "'n engine \<Rightarrow> jsstring \<Rightarrow> js_error + 'n jsval" where
  "JSON_parse N text =
     (case tokenize text of
        None \<Rightarrow> Inl SyntaxError
      | Some ts \<Rightarrow> parse_tokens N (Parsing []) ts)"

section \<open>The language operations the handler uses\<close>

fun ToBoolean :: "'n engine \<Rightarrow> 'n jsval \<Rightarrow> bool" where
  "ToBoolean N Null = False"
| "ToBoolean N (Boolean b) = b"
| "ToBoolean N (Number n) = (\<not> isZeroOrNaN N n)"
| "ToBoolean N (String s) = (s \<noteq> [])"
| "ToBoolean N (Array xs ps) = True"
| "ToBoolean N (Object ps) = True"

fun typeof :: "'n jsval \<Rightarrow> string" where
  "typeof Null = ''object''"
| "typeof (Boolean b) = ''boolean''"
| "typeof (Number n) = ''number''"
| "typeof (String s) = ''string''"
| "typeof (Array xs ps) = ''object''"
| "typeof (Object ps) = ''object''"

text \<open>
  Reading \<open>v.k\<close> and assigning \<open>v.k = x\<close> (non-strict code) for a property name \<open>k\<close>
  that is not an array index, not \<open>length\<close> and not defined on a built-in prototype;
  \<open>posicional\<close> is such a name. A read that finds nothing gives \<open>undefined\<close>, here
  \<open>None\<close>. On \<open>null\<close> both throw a TypeError; on another primitive the read gives
  \<open>undefined\<close> and the assignment does nothing.
\<close>

fun GetValue :: "'n jsval \<Rightarrow> jsstring \<Rightarrow> js_error + 'n jsval option" where
  "GetValue Null k = Inl TypeError"
| "GetValue (Object ps) k = Inr (map_of ps k)"
| "GetValue (Array xs ps) k = Inr (map_of ps k)"
| "GetValue v k = Inr None"

fun PutValue :: "'n jsval \<Rightarrow> jsstring \<Rightarrow> 'n jsval \<Rightarrow> js_error + 'n jsval" where
  "PutValue Null k x = Inl TypeError"
| "PutValue (Object ps) k x = Inr (Object (put_property ps k x))"
| "PutValue (Array xs ps) k x = Inr (Array xs (put_property ps k x))"
| "PutValue v k x = Inr v"

fun Array_isArray :: "'n jsval option \<Rightarrow> bool" where
  "Array_isArray (Some (Array xs ps)) = True"
| "Array_isArray _ = False"

section \<open>The file system and the console\<close>

datatype entry = Readable jsstring | Unreadable js_error

text \<open>
  What the process finds at a path: nothing, a file whose read returns its decoded text,
  or something that exists and whose read throws (a directory, a file without read
  permission). The console keeps the lines written by \<open>console.error\<close>.
\<close>

record world =
  files :: "string \<rightharpoonup> entry"
  console :: "(jsstring \<times> js_error) list"

definition existsSync :: "world \<Rightarrow> string \<Rightarrow> bool" where
  "existsSync w p \<longleftrightarrow> files w p \<noteq> None"

definition readFileSync :: "world \<Rightarrow> string \<Rightarrow> js_error + jsstring" where
  "readFileSync w p =
     (case files w p of
        None \<Rightarrow> Inl (SystemError ''ENOENT'')
      | Some (Unreadable e) \<Rightarrow> Inl e
      | Some (Readable s) \<Rightarrow> Inr s)"

definition console_error :: "jsstring \<Rightarrow> js_error \<Rightarrow> world \<Rightarrow> world" where
  "console_error msg err w = w\<lparr>console := console w @ [(msg, err)]\<rparr>"

section \<open>The route /api/saida-posicional\<close>

definition SAIDA_PATH :: string where
  "SAIDA_PATH = ''/home/roteiro_ds/autotrader-saida-posicional/data/saida_posicional.json''"

definition posicional :: jsstring where
  "posicional = ascii ''posicional''"

definition ultima_atualizacao :: jsstring where
  "ultima_atualizacao = ascii ''ultima_atualizacao''"

definition erro :: jsstring where
  "erro = ascii ''erro''"

text \<open>The object literal \<open>{ posicional: [], ultima_atualizacao: null }\<close>.\<close>

definition empty_document :: "'n jsval" where
  "empty_document = Object [(posicional, Array [] []), (ultima_atualizacao, Null)]"

text \<open>The message of the failure response; its accented letter is the code unit U+00ED.\<close>

definition falha :: jsstring where
  "falha = ascii ''Falha ao ler dados de sa'' @ [0xED] @ ascii ''da''"

definition failure_document :: "'n jsval" where
  "failure_document = Object [(erro, String falha)]"

record request =
  req_url :: string
  req_headers :: "(string \<times> string) list"

text \<open>
  What the handler gives to the response writer: the status code and the value that
  \<open>res.json\<close> has serialised. The body is the text of that value.
\<close>

record 'n response =
  status :: nat
  payload :: "'n jsval"

definition body :: "'n engine \<Rightarrow> 'n response \<Rightarrow> jsstring" where
  "body N r = serialize N (payload r)"

text \<open>
  \<open>res.json(data)\<close> serialises \<open>data\<close> with \<open>JSON.stringify\<close> and sends the text; an
  exception of the serialiser leaves the call before anything is sent.
\<close>

definition res_json :: "'n engine \<Rightarrow> 'n jsval \<Rightarrow> js_error + 'n jsval" where
  "res_json N data =
     (case JSON_stringify N data of
        Inl err \<Rightarrow> Inl err
      | Inr text \<Rightarrow> Inr data)"

text \<open>
  The \<open>try\<close> block of the handler, its calls of \<open>res.json\<close> included: \<open>Inr\<close> the
  value sent, \<open>Inl\<close> the exception that reaches the \<open>catch\<close> clause.
\<close>

definition try_block :: "'n engine \<Rightarrow> world \<Rightarrow> js_error + 'n jsval" where
  "try_block N w =
     (if \<not> existsSync w SAIDA_PATH then res_json N empty_document
      else
        case readFileSync w SAIDA_PATH of
          Inl err \<Rightarrow> Inl err
        | Inr raw \<Rightarrow>
            (case JSON_parse N raw of
               Inl err \<Rightarrow> Inl err
             | Inr parsed \<Rightarrow>
                 (let data = (if \<not> ToBoolean N parsed \<or> typeof parsed \<noteq> ''object''
                              then empty_document else parsed)
                  in case GetValue data posicional of
                       Inl err \<Rightarrow> Inl err
                     | Inr p \<Rightarrow>
                         (case (if \<not> Array_isArray p
                                then PutValue data posicional (Array [] [])
                                else Inr data) of
                            Inl err \<Rightarrow> Inl err
                          | Inr data' \<Rightarrow> res_json N data'))))"

text \<open>
  The handler: the \<open>try\<close> block, and the \<open>catch\<close> clause that writes the error to the
  console and answers 500 with the literal \<open>{ erro: ... }\<close>. That literal is one level
  deep, so serialising it throws nothing.
\<close>

definition handler :: "'n engine \<Rightarrow> request \<Rightarrow> world \<Rightarrow> 'n response \<times> world" where
  "handler N req w =
     (case try_block N w of
        Inr data \<Rightarrow> (\<lparr>status = 200, payload = data\<rparr>, w)
      | Inl err \<Rightarrow>
          (\<lparr>status = 500, payload = failure_document\<rparr>,
           console_error (ascii ''[ERRO] Lendo saida_posicional.json:'') err w))"

section \<open>Engines for the worked examples\<close>

fun decimal :: "nat \<Rightarrow> jsstring" where
  "decimal n = (if n < 10 then [0x30 + of_nat n] else decimal (n div 10) @ [0x30 + of_nat (n mod 10)])"

text \<open>
  An engine for the worked examples. Its Number operations are those of integer literals
  (no fraction, no exponent) of magnitude up to \<open>2\<^sup>5\<^sup>3\<close>, where a double holds the value
  exactly and prints as its decimal digits; the examples use only such literals. Its call
  stack holds four thousand levels of nesting.
\<close>

definition integers :: "int engine" where
  "integers =
     \<lparr> StringToNumber = (\<lambda>lit. case lit of
                                  [] \<Rightarrow> 0
                                | c # cs \<Rightarrow> if c = 0x2D then - index_value cs
                                            else index_value lit),
       NumberToString = (\<lambda>n. if n < 0 then 0x2D # decimal (nat (- n)) else decimal (nat n)),
       isFinite = (\<lambda>n. True),
       isZeroOrNaN = (\<lambda>n. n = 0),
       stack_overflow = (\<lambda>v. 4000 < depth v) \<rparr>"





section \<open>Worlds and requests for the worked examples\<close>

text \<open>
  A world with nothing at the configured path; one whose only file is the artifact with a
  given text; one where the path exists and reading it throws; and one that also holds
  another file and an earlier console line.
\<close>

definition nothing_on_disk :: world where
  "nothing_on_disk = \<lparr>files = Map.empty, console = []\<rparr>"

definition on_disk :: "jsstring \<Rightarrow> world" where
  "on_disk text = \<lparr>files = [SAIDA_PATH \<mapsto> Readable text], console = []\<rparr>"

definition unreadable :: "js_error \<Rightarrow> world" where
  "unreadable err = \<lparr>files = [SAIDA_PATH \<mapsto> Unreadable err], console = []\<rparr>"

definition busy_world :: "jsstring \<Rightarrow> world" where
  "busy_world text =
     \<lparr>files = [''/tmp/other.json'' \<mapsto> Readable (ascii ''{}''), SAIDA_PATH \<mapsto> Readable text],
      console = [(ascii ''[ERRO] Lendo saida_posicional.json:'', SyntaxError)]\<rparr>"

text \<open>
  Arrays nested in one another: \<open>nest k v\<close> wraps \<open>v\<close> in \<open>k\<close> arrays, and
  \<open>brackets k\<close> is the text of \<open>k + 1\<close> nested arrays, the innermost one empty.
\<close>

fun nest :: "nat \<Rightarrow> 'n jsval \<Rightarrow> 'n jsval" where
  "nest 0 v = v"
| "nest (Suc k) v = Array [nest k v] []"

definition brackets :: "nat \<Rightarrow> jsstring" where
  "brackets k = replicate (Suc k) 0x5B @ replicate (Suc k) 0x5D"

text \<open>Two requests for the route; the handler never reads its request.\<close>

definition get_request :: request where
  "get_request = \<lparr>req_url = ''/api/saida-posicional'', req_headers = []\<rparr>"

definition other_request :: request where
  "other_request =
     \<lparr>req_url = ''/api/saida-posicional?t=1'', req_headers = [(''accept'', ''*/*'')]\<rparr>"

text \<open>The parsed values that are neither an object nor an array.\<close>

fun is_primitive :: "'n jsval \<Rightarrow> bool" where
  "is_primitive (Array xs ps) = False"
| "is_primitive (Object ps) = False"
| "is_primitive v = True"

section \<open>The values that JSON.parse builds, and their text read back\<close>

text \<open>
  The own property keys of an ordinary object, in the order of enumeration: no key twice,
  and a key that is an array index comes after array indices of smaller value only.
\<close>

definition enumerated :: "jsstring list \<Rightarrow> bool" where
  "enumerated ks \<longleftrightarrow>
     distinct ks \<and>
     sorted_wrt (\<lambda>a b. is_array_index b \<longrightarrow> is_array_index a \<and> index_value a < index_value b) ks"

text \<open>
  The shape of a parsed value: an array has no named property, and the properties of an
  object are in the order of enumeration.
\<close>

fun parsed_shape :: "'n jsval \<Rightarrow> bool" where
  "parsed_shape (Array xs ps) = (ps = [] \<and> list_all parsed_shape xs)"
| "parsed_shape (Object ps) =
     (enumerated (map fst ps) \<and> list_all (\<lambda>p. parsed_shape (snd p)) ps)"
| "parsed_shape v = True"

fun frame_shape :: "'n frame \<Rightarrow> bool" where
  "frame_shape ArrayStart = True"
| "frame_shape (ArrayValue vs) = list_all parsed_shape vs"
| "frame_shape (ArrayComma vs) = list_all parsed_shape vs"
| "frame_shape ObjectStart = True"
| "frame_shape (ObjectKey ps k) = parsed_shape (Object ps)"
| "frame_shape (ObjectColon ps k) = parsed_shape (Object ps)"
| "frame_shape (ObjectValue ps) = parsed_shape (Object ps)"
| "frame_shape (ObjectComma ps) = parsed_shape (Object ps)"

fun state_shape :: "'n pstate \<Rightarrow> bool" where
  "state_shape (Parsing st) = list_all frame_shape st"
| "state_shape (Done v) = parsed_shape v"

text \<open>
  A Number survives the serialiser and the parser when it is finite, its text is a JSON
  number literal, and that literal is read as the same Number. A value survives when
  every Number in it does.
\<close>

fun numbers_survive :: "'n engine \<Rightarrow> 'n jsval \<Rightarrow> bool" where
  "numbers_survive N (Number n) =
     (isFinite N n \<and>
      scan_number (NumberToString N n) = Some (NumberToString N n, []) \<and>
      StringToNumber N (NumberToString N n) = n)"
| "numbers_survive N (Array xs ps) = list_all (numbers_survive N) xs"
| "numbers_survive N (Object ps) = list_all (\<lambda>p. numbers_survive N (snd p)) ps"
| "numbers_survive N v = True"

text \<open>The tokens of the text of a value.\<close>

fun separated :: "token list list \<Rightarrow> token list" where
  "separated [] = []"
| "separated [x] = x"
| "separated (x # y # ys) = x @ [TComma] @ separated (y # ys)"

fun tokens_of :: "'n engine \<Rightarrow> 'n jsval \<Rightarrow> token list" where
  "tokens_of N Null = [TNull]"
| "tokens_of N (Boolean b) = [if b then TTrue else TFalse]"
| "tokens_of N (Number n) = [if isFinite N n then TNumber (NumberToString N n) else TNull]"
| "tokens_of N (String s) = [TString s]"
| "tokens_of N (Array xs ps) = [TLBracket] @ separated (map (tokens_of N) xs) @ [TRBracket]"
| "tokens_of N (Object ps) =
     [TLBrace] @
     separated (map (\<lambda>p. [TString (fst p), TColon] @ tokens_of N (snd p)) ps) @
     [TRBrace]"

text \<open>What may follow a value in a JSON text without white space: nothing, or a comma or a closing bracket.\<close>

definition delimited :: "jsstring \<Rightarrow> bool" where
  "delimited rest \<longleftrightarrow> (case rest of [] \<Rightarrow> True | c # _ \<Rightarrow> c = 0x2C \<or> c = 0x5D \<or> c = 0x7D)"

section \<open>JSON.parse and JSON.stringify on examples\<close>

lemma parse_rejects_trailing_comma:
  \<open>JSON_parse integers (ascii ''[1,]'') = Inl SyntaxError \<and>
   JSON_parse integers (ascii ''{"a":1,}'') = Inl SyntaxError\<close>
  by code_simp

lemma parse_rejects_malformed_numbers:
  \<open>JSON_parse integers (ascii ''01'') = Inl SyntaxError \<and>
   JSON_parse integers (ascii ''1.'') = Inl SyntaxError \<and>
   JSON_parse integers (ascii ''-'') = Inl SyntaxError \<and>
   JSON_parse integers (ascii ''+1'') = Inl SyntaxError \<and>
   JSON_parse integers (ascii ''1e'') = Inl SyntaxError\<close>
  by code_simp

lemma parse_rejects_empty_and_extra_text:
  \<open>JSON_parse integers [] = Inl SyntaxError \<and>
   JSON_parse integers (ascii ''null null'') = Inl SyntaxError \<and>
   JSON_parse integers (ascii ''{"a":1}}'') = Inl SyntaxError \<and>
   JSON_parse integers (ascii ''[1,2'') = Inl SyntaxError \<and>
   JSON_parse integers (ascii ''nul'') = Inl SyntaxError\<close>
  by code_simp

text \<open>A byte order mark is not white space: a text that starts with U+FEFF is rejected.\<close>

lemma parse_rejects_byte_order_mark:
  \<open>JSON_parse integers (0xFEFF # ascii ''{}'') = Inl SyntaxError\<close>
  by code_simp

lemma parse_skips_white_space:
  \<open>JSON_parse integers (ascii '' [ 1 , [ ] , { } ] '') =
     Inr (Array [Number 1, Array [] [], Object []] [])\<close>
  by code_simp

text \<open>A repeated key keeps its first place and its last value; array indices come first.\<close>

lemma parse_repeated_key:
  \<open>JSON_parse integers (ascii ''{"a":1,"b":2,"a":3}'') =
     Inr (Object [(ascii ''a'', Number 3), (ascii ''b'', Number 2)])\<close>
  by code_simp

lemma parse_index_keys_first:
  \<open>JSON_parse integers (ascii ''{"b":1,"10":2,"a":null,"9":true}'') =
     Inr (Object [(ascii ''9'', Boolean True), (ascii ''10'', Number 2),
                  (ascii ''b'', Number 1), (ascii ''a'', Null)])\<close>
  by code_simp

text \<open>
  A string literal with the escapes for U+00E9, for a line feed and for the lone
  surrogate U+D83D, written in code units: the escapes are decoded, and
  \<open>JSON.stringify\<close> writes the letter as it is and escapes the other two.
\<close>

lemma parse_and_stringify_escapes:
  \<open>JSON_parse integers
     [0x22, 0x5C, 0x75, 0x30, 0x30, 0x65, 0x39, 0x5C, 0x6E, 0x5C, 0x75, 0x64, 0x38, 0x33, 0x64, 0x22] =
     Inr (String [0xE9, 0x0A, 0xD83D]) \<and>
   serialize integers (String [0xE9, 0x0A, 0xD83D]) =
     [0x22, 0xE9, 0x5C, 0x6E, 0x5C, 0x75, 0x64, 0x38, 0x33, 0x64, 0x22]\<close>
  by code_simp

lemma stringify_negative_and_nested:
  \<open>serialize integers
     (Object [(ascii ''n'', Number (- 120)), (ascii ''xs'', Array [Boolean False, Null] [])]) =
     ascii ''{"n":-120,"xs":[false,null]}''\<close>
  by code_simp

section \<open>What the try block computes\<close>

lemma res_json_eq:
  "res_json N v = (if exhausts_stack N v then Inl RangeError else Inr v)"
  by (simp add: res_json_def JSON_stringify_def)

lemma res_json_shallow: "depth v \<le> 2 \<Longrightarrow> res_json N v = Inr v"
  by (simp add: res_json_eq exhausts_stack_def)

lemma depth_empty_document: "depth (empty_document :: 'n jsval) = 2"
  by (simp add: empty_document_def)

lemma depth_failure_document: "depth (failure_document :: 'n jsval) = 1"
  by (simp add: failure_document_def)

lemma res_json_empty_document: "res_json N empty_document = Inr empty_document"
  by (simp add: res_json_shallow depth_empty_document)

lemma res_json_failure_document: "res_json N failure_document = Inr failure_document"
  by (simp add: res_json_shallow depth_failure_document)

lemma try_block_absent:
  "\<not> existsSync w SAIDA_PATH \<Longrightarrow> try_block N w = Inr empty_document"
  by (simp add: try_block_def res_json_empty_document)

lemma try_block_read_error:
  "existsSync w SAIDA_PATH \<Longrightarrow> readFileSync w SAIDA_PATH = Inl err \<Longrightarrow> try_block N w = Inl err"
  by (simp add: try_block_def)

lemma try_block_parse_error:
  "existsSync w SAIDA_PATH \<Longrightarrow> readFileSync w SAIDA_PATH = Inr raw \<Longrightarrow>
   JSON_parse N raw = Inl err \<Longrightarrow> try_block N w = Inl err"
  by (simp add: try_block_def)

lemma try_block_object:
  "existsSync w SAIDA_PATH \<Longrightarrow> readFileSync w SAIDA_PATH = Inr raw \<Longrightarrow>
   JSON_parse N raw = Inr (Object ps) \<Longrightarrow>
   try_block N w =
     res_json N (Object (if Array_isArray (map_of ps posicional) then ps
                         else put_property ps posicional (Array [] [])))"
  by (simp add: try_block_def)

lemma try_block_array:
  "existsSync w SAIDA_PATH \<Longrightarrow> readFileSync w SAIDA_PATH = Inr raw \<Longrightarrow>
   JSON_parse N raw = Inr (Array xs qs) \<Longrightarrow>
   try_block N w =
     res_json N (Array xs (if Array_isArray (map_of qs posicional) then qs
                           else put_property qs posicional (Array [] [])))"
  by (simp add: try_block_def)

lemma GetValue_empty_document:
  "GetValue (empty_document :: 'n jsval) posicional = Inr (Some (Array [] []))"
  by (simp add: empty_document_def)

lemma try_block_primitive:
  "existsSync w SAIDA_PATH \<Longrightarrow> readFileSync w SAIDA_PATH = Inr raw \<Longrightarrow>
   JSON_parse N raw = Inr v \<Longrightarrow> is_primitive v \<Longrightarrow> try_block N w = Inr empty_document"
  by (cases v) (simp_all add: try_block_def GetValue_empty_document res_json_empty_document)

text \<open>
  The \<open>catch\<close> clause is reached by an exception of \<open>readFileSync\<close>, of \<open>JSON.parse\<close>
  or of the serialiser inside \<open>res.json\<close>, and by nothing else: after the first
  \<open>if\<close> the value is never \<open>null\<close>, so the property read and the assignment do not
  throw.
\<close>

lemma try_block_failure_cases:
  assumes "try_block N w = Inl err"
  shows "existsSync w SAIDA_PATH \<and>
         (readFileSync w SAIDA_PATH = Inl err \<or>
          (\<exists>raw. readFileSync w SAIDA_PATH = Inr raw \<and>
             (JSON_parse N raw = Inl err \<or>
              (\<exists>v. JSON_parse N raw = Inr v \<and> \<not> is_primitive v \<and> err = RangeError))))"
proof (cases "existsSync w SAIDA_PATH")
  case False
  with assms show ?thesis by (simp add: try_block_absent)
next
  case True
  show ?thesis
  proof (cases "readFileSync w SAIDA_PATH")
    case (Inl a)
    with assms True show ?thesis by (simp add: try_block_read_error)
  next
    case (Inr raw)
    show ?thesis
    proof (cases "JSON_parse N raw")
      case (Inl a)
      with assms True Inr show ?thesis by (simp add: try_block_parse_error)
    next
      case parsed: (Inr v)
      have "\<not> is_primitive v \<and> err = RangeError"
      proof (cases v)
        case (Array xs qs)
        with assms True Inr parsed show ?thesis
          by (simp add: try_block_array res_json_eq split: if_splits)
      next
        case (Object ps)
        with assms True Inr parsed show ?thesis
          by (simp add: try_block_object res_json_eq split: if_splits)
      qed (use assms True Inr parsed in \<open>simp_all add: try_block_primitive\<close>)
      with True Inr parsed show ?thesis by simp
    qed
  qed
qed

lemma try_block_cong:
  "existsSync w1 SAIDA_PATH = existsSync w2 SAIDA_PATH \<Longrightarrow>
   readFileSync w1 SAIDA_PATH = readFileSync w2 SAIDA_PATH \<Longrightarrow>
   try_block N w1 = try_block N w2"
  by (simp add: try_block_def)

lemma parse_tokens_error: "parse_tokens N s ts = Inl err \<Longrightarrow> err = SyntaxError"
  by (induction ts arbitrary: s) (auto split: pstate.splits option.splits)

lemma JSON_parse_error: "JSON_parse N raw = Inl err \<Longrightarrow> err = SyntaxError"
  by (auto simp: JSON_parse_def split: option.splits dest: parse_tokens_error)

section \<open>What the handler answers\<close>

lemma handler_success:
  "try_block N w = Inr data \<Longrightarrow> handler N req w = (\<lparr>status = 200, payload = data\<rparr>, w)"
  by (simp add: handler_def)

lemma handler_failure:
  "try_block N w = Inl err \<Longrightarrow>
   handler N req w =
     (\<lparr>status = 500, payload = failure_document\<rparr>,
      console_error (ascii ''[ERRO] Lendo saida_posicional.json:'') err w)"
  by (simp add: handler_def)

text \<open>The value of a response is one that the serialiser did not throw on.\<close>

lemma handler_payload_serialised:
  "JSON_stringify N (payload (fst (handler N req w))) = Inr (body N (fst (handler N req w)))"
proof (cases "try_block N w")
  case (Inl err)
  then show ?thesis
    by (simp add: handler_failure JSON_stringify_def exhausts_stack_def
          depth_failure_document body_def)
next
  case (Inr data)
  have "\<not> exhausts_stack N data"
  proof (cases "existsSync w SAIDA_PATH")
    case False
    with Inr show ?thesis
      by (auto simp: try_block_absent exhausts_stack_def depth_empty_document)
  next
    case True
    then obtain raw where r: "readFileSync w SAIDA_PATH = Inr raw"
      using Inr by (cases "readFileSync w SAIDA_PATH") (simp_all add: try_block_read_error)
    then obtain v where p: "JSON_parse N raw = Inr v"
      using Inr True by (cases "JSON_parse N raw") (simp_all add: try_block_parse_error)
    show ?thesis
    proof (cases v)
      case (Array xs qs)
      with Inr True r p show ?thesis
        by (auto simp: try_block_array res_json_eq split: if_splits)
    next
      case (Object ps)
      with Inr True r p show ?thesis
        by (auto simp: try_block_object res_json_eq split: if_splits)
    qed (use Inr True r p in
        \<open>auto simp: try_block_primitive exhausts_stack_def depth_empty_document\<close>)
  qed
  with Inr show ?thesis
    by (simp add: handler_success JSON_stringify_def body_def)
qed

lemma handler_files: "files (snd (handler N req w)) = files w"
  by (simp add: handler_def console_error_def split: sum.splits)

lemma serialize_empty_document:
  \<open>serialize N empty_document = ascii ''{"posicional":[],"ultima_atualizacao":null}''\<close>
  by code_simp

lemma serialize_failure_document:
  \<open>serialize N failure_document =
     ascii ''{"erro":"Falha ao ler dados de sa'' @ [0xED] @ ascii ''da"}''\<close>
  by code_simp

lemma ultima_atualizacao_not_posicional: "ultima_atualizacao \<noteq> posicional"
  by code_simp

section \<open>Writing a property\<close>

lemma map_of_replace:
  "map_of (map (\<lambda>q. if fst q = k then (k, v) else q) ps) k' =
     (if k' = k \<and> k \<in> fst ` set ps then Some v else map_of ps k')"
  by (induction ps) (auto simp: rev_image_eqI)

lemma map_of_insert_index:
  "k \<notin> fst ` set ps \<Longrightarrow>
   map_of (insert_index (k, v) ps) k' = (if k' = k then Some v else map_of ps k')"
  by (induction ps) auto

lemma map_of_put_property: "map_of (put_property ps k v) = (map_of ps)(k \<mapsto> v)"
proof (rule ext)
  fix k'
  show "map_of (put_property ps k v) k' = ((map_of ps)(k \<mapsto> v)) k'"
  proof (cases "k \<in> fst ` set ps")
    case True
    then show ?thesis by (simp add: put_property_def map_of_replace)
  next
    case False
    then have "map_of ps k = None" by (simp add: map_of_eq_None_iff)
    with False show ?thesis
      by (auto simp: put_property_def map_of_insert_index map_add_def split: option.splits)
  qed
qed



section \<open>The example worlds\<close>

lemma nothing_on_disk_absent: "\<not> existsSync nothing_on_disk SAIDA_PATH"
  by (simp add: existsSync_def nothing_on_disk_def)

lemma on_disk_exists: "existsSync (on_disk text) SAIDA_PATH"
  by (simp add: existsSync_def on_disk_def)

lemma on_disk_read: "readFileSync (on_disk text) SAIDA_PATH = Inr text"
  by (simp add: readFileSync_def on_disk_def)

lemma unreadable_exists: "existsSync (unreadable err) SAIDA_PATH"
  by (simp add: existsSync_def unreadable_def)

lemma unreadable_read: "readFileSync (unreadable err) SAIDA_PATH = Inl err"
  by (simp add: readFileSync_def unreadable_def)

lemma busy_world_exists: "existsSync (busy_world text) SAIDA_PATH"
  by (simp add: existsSync_def busy_world_def)

lemma busy_world_read: "readFileSync (busy_world text) SAIDA_PATH = Inr text"
  by (simp add: readFileSync_def busy_world_def)

section \<open>Deeply nested arrays\<close>

lemma tokenize_opens:
  "tokenize rest = Some ts \<Longrightarrow> tokenize (replicate k 0x5B @ rest) = Some (replicate k TLBracket @ ts)"
  by (induction k) (simp_all add: is_ws_def)

lemma tokenize_closes:
  "tokenize rest = Some ts \<Longrightarrow> tokenize (replicate k 0x5D @ rest) = Some (replicate k TRBracket @ ts)"
  by (induction k) (simp_all add: is_ws_def)

lemma tokenize_brackets:
  "tokenize rest = Some ts \<Longrightarrow>
   tokenize (brackets k @ rest) =
     Some (replicate (Suc k) TLBracket @ replicate (Suc k) TRBracket @ ts)"
  unfolding brackets_def append_assoc
  by (intro tokenize_opens tokenize_closes)

lemma parse_opens:
  "expects_value st \<Longrightarrow>
   parse_tokens N (Parsing st) (replicate k TLBracket @ ts) =
     parse_tokens N (Parsing (replicate k ArrayStart @ st)) ts"
proof (induction k arbitrary: st)
  case 0
  then show ?case by simp
next
  case (Suc k)
  have "parse_tokens N (Parsing st) (replicate (Suc k) TLBracket @ ts) =
        parse_tokens N (Parsing (ArrayStart # st)) (replicate k TLBracket @ ts)"
    using Suc.prems by simp
  also have "\<dots> = parse_tokens N (Parsing (replicate k ArrayStart @ ArrayStart # st)) ts"
    by (rule Suc.IH) simp
  also have "replicate k ArrayStart @ ArrayStart # st = replicate (Suc k) ArrayStart @ st"
    by (simp add: replicate_app_Cons_same)
  finally show ?case .
qed

lemma nest_Array: "nest k (Array [v] []) = Array [nest k v] []"
  by (induction k) simp_all

lemma parse_closes:
  "parse_tokens N (Parsing (ArrayValue [v] # replicate k ArrayStart @ st))
     (replicate (Suc k) TRBracket @ ts) =
   (case accept_value (nest (Suc k) v) st of
      None \<Rightarrow> Inl SyntaxError
    | Some s \<Rightarrow> parse_tokens N s ts)"
proof (induction k arbitrary: v)
  case 0
  show ?case by simp
next
  case (Suc k)
  have "parse_tokens N (Parsing (ArrayValue [v] # replicate (Suc k) ArrayStart @ st))
          (replicate (Suc (Suc k)) TRBracket @ ts) =
        parse_tokens N (Parsing (ArrayValue [Array [v] []] # replicate k ArrayStart @ st))
          (replicate (Suc k) TRBracket @ ts)"
    by simp
  also have "\<dots> = (case accept_value (nest (Suc k) (Array [v] [])) st of
      None \<Rightarrow> Inl SyntaxError
    | Some s \<Rightarrow> parse_tokens N s ts)"
    by (rule Suc.IH)
  finally show ?case by (simp add: nest_Array)
qed

lemma parse_brackets:
  assumes "expects_value st"
  shows "parse_tokens N (Parsing st) (replicate (Suc k) TLBracket @ replicate (Suc k) TRBracket @ ts) =
     (case accept_value (nest k (Array [] [])) st of
        None \<Rightarrow> Inl SyntaxError
      | Some s \<Rightarrow> parse_tokens N s ts)"
proof -
  have "parse_tokens N (Parsing st) (replicate (Suc k) TLBracket @ replicate (Suc k) TRBracket @ ts) =
        parse_tokens N (Parsing (replicate (Suc k) ArrayStart @ st)) (replicate (Suc k) TRBracket @ ts)"
    by (rule parse_opens [OF assms])
  also have "\<dots> = (case accept_value (nest k (Array [] [])) st of
        None \<Rightarrow> Inl SyntaxError
      | Some s \<Rightarrow> parse_tokens N s ts)"
  proof (cases k)
    case 0
    then show ?thesis by simp
  next
    case (Suc j)
    have "parse_tokens N (Parsing (replicate (Suc (Suc j)) ArrayStart @ st))
            (replicate (Suc (Suc j)) TRBracket @ ts) =
          parse_tokens N (Parsing (ArrayValue [Array [] []] # replicate j ArrayStart @ st))
            (replicate (Suc j) TRBracket @ ts)"
      by simp
    also have "\<dots> = (case accept_value (nest (Suc j) (Array [] [])) st of
        None \<Rightarrow> Inl SyntaxError
      | Some s \<Rightarrow> parse_tokens N s ts)"
      by (rule parse_closes)
    finally show ?thesis using Suc by simp
  qed
  finally show ?thesis .
qed

lemma depth_nest: "depth (nest k v) = k + depth v"
  by (induction k) simp_all

lemma tokenize_prefix_fundo:
  assumes "tokenize rest = Some ts"
  shows \<open>tokenize (ascii ''{"posicional":"x","fundo":'' @ rest) =
     Some ([TLBrace, TString posicional, TColon, TString (ascii ''x''), TComma,
            TString (ascii ''fundo''), TColon] @ ts)\<close>
  using assms
  by (simp add: ascii_def posicional_def is_ws_def is_digit_def escape_char_def)

lemma parse_fundo:
  \<open>JSON_parse N (ascii ''{"posicional":"x","fundo":'' @ brackets k @ ascii ''}'') =
     Inr (Object [(posicional, String (ascii ''x'')), (ascii ''fundo'', nest k (Array [] []))])\<close>
proof -
  have s: \<open>tokenize (ascii ''}'') = Some [TRBrace]\<close>
    by code_simp
  have "\<not> is_array_index posicional"
    by code_simp
  then have p: "put_property [] posicional (String (ascii ''x'') :: 'a jsval) =
      [(posicional, String (ascii ''x''))]"
    by (simp add: put_property_def)
  have "ascii ''fundo'' \<noteq> posicional" "\<not> is_array_index (ascii ''fundo'')"
    by code_simp+
  then have q: "put_property [(posicional, String (ascii ''x''))] (ascii ''fundo'') v =
      [(posicional, String (ascii ''x'')), (ascii ''fundo'', v)]" for v :: "'a jsval"
    by (simp add: put_property_def)
  let ?st = "[ObjectColon [(posicional, String (ascii ''x''))] (ascii ''fundo'')] :: 'a frame list"
  have a: "parse_tokens N (Parsing [])
      ([TLBrace, TString posicional, TColon, TString (ascii ''x''), TComma,
        TString (ascii ''fundo''), TColon] @ X) = parse_tokens N (Parsing ?st) X" for X
    by (simp add: p)
  have b: "parse_tokens N (Parsing ?st)
      (replicate (Suc k) TLBracket @ replicate (Suc k) TRBracket @ [TRBrace]) =
      Inr (Object [(posicional, String (ascii ''x'')), (ascii ''fundo'', nest k (Array [] []))])"
    by (subst parse_brackets) (simp_all add: q)
  show ?thesis
    unfolding JSON_parse_def tokenize_prefix_fundo [OF tokenize_brackets [OF s]] option.case a
    by (rule b)
qed



lemma integers_overflow: "stack_overflow integers v \<longleftrightarrow> 4000 < depth v"
  by (simp add: integers_def)

text \<open>
  On the example engine a document with a value nested more than four thousand levels
  deep is parsed, normalised, and then makes the serialiser throw: the answer is the
  failure response and the RangeError goes to the console.
\<close>

lemma deep_fundo_answer:
  assumes "4000 < k"
  shows \<open>handler integers req
           (on_disk (ascii ''{"posicional":"x","fundo":'' @ brackets k @ ascii ''}'')) =
         (\<lparr>status = 500, payload = failure_document\<rparr>,
          console_error (ascii ''[ERRO] Lendo saida_posicional.json:'') RangeError
            (on_disk (ascii ''{"posicional":"x","fundo":'' @ brackets k @ ascii ''}'')))\<close>
proof -
  have n: "ascii ''fundo'' \<noteq> posicional" by code_simp
  then have q: "put_property [(posicional, String (ascii ''x'')),
        (ascii ''fundo'', nest k (Array [] []))] posicional (Array [] [] :: int jsval) =
      [(posicional, Array [] []), (ascii ''fundo'', nest k (Array [] []))]"
    by (simp add: put_property_def)
  have e: "exhausts_stack integers
      (Object [(posicional, Array [] []), (ascii ''fundo'', nest k (Array [] []))])"
    using assms by (simp add: exhausts_stack_def integers_overflow depth_nest)
  have \<open>try_block integers
      (on_disk (ascii ''{"posicional":"x","fundo":'' @ brackets k @ ascii ''}'')) = Inl RangeError\<close>
    using e by (simp add: try_block_object [OF on_disk_exists on_disk_read parse_fundo] q res_json_eq)
  then show ?thesis by (rule handler_failure)
qed


lemma GetValue_failure_document:
  "k \<noteq> erro \<Longrightarrow> GetValue (failure_document :: 'n jsval) k = Inr None"
  by (simp add: failure_document_def)

section \<open>Serialising and parsing again\<close>

subsection \<open>String literals\<close>

text \<open>
  What QuoteJSONString writes between the quotation marks, the scanner of string
  literals reads back as the string itself: the four hexadecimal digits of an escape
  give back the code unit, and a surrogate pair written as it is stays as it is.
\<close>

lemma int_recompose:
  "((n div 4096 * 16 + n div 256 mod 16) * 16 + n div 16 mod 16) * 16 + n mod 16 = (n::int)"
proof -
  have a: "n div 256 = n div 16 div 16" and b: "n div 4096 = n div 16 div 16 div 16"
    by (simp_all add: zdiv_zmult2_eq [symmetric])
  show ?thesis unfolding a b by (simp only: div_mult_mod_eq)
qed

lemma uint16: "uint (c :: 16 word) < 65536"
  using uint_lt2p [of c] by simp

lemma small_nat: "(n::nat) < 16 \<Longrightarrow> n \<in> {0,1,2,3,4,5,6,7,8,9,10,11,12,13,14,15}"
  by (simp add: numeral_eq_Suc less_Suc_eq)

lemma small_int:
  assumes "0 \<le> d" and "d < 16"
  shows "(d::int) \<in> {0,1,2,3,4,5,6,7,8,9,10,11,12,13,14,15}"
proof -
  from assms have "nat d < 16" by simp
  then have "int (nat d) \<in> int ` {0,1,2,3,4,5,6,7,8,9,10,11,12,13,14,15}"
    by (intro imageI small_nat)
  with assms show ?thesis by simp
qed

lemma hex_value_hex_digit:
  assumes "0 \<le> d" "d < 16"
  shows "hex_value (hex_digit d) = Some d"
  using small_int [OF assms]
  by (elim insertE emptyE) (simp_all add: hex_value_def hex_digit_def is_digit_def)

lemma hex4_unicode_escape:
  "hex4 (hex_digit (uint c div 4096)) (hex_digit (uint c div 256 mod 16))
     (hex_digit (uint c div 16 mod 16)) (hex_digit (uint c mod 16)) = Some c"
proof -
  have "uint c div 4096 < 16" "0 \<le> uint c div 4096" using uint16 [of c] by (simp_all add: pos_imp_zdiv_nonneg_iff)
  then have "hex4 (hex_digit (uint c div 4096)) (hex_digit (uint c div 256 mod 16))
     (hex_digit (uint c div 16 mod 16)) (hex_digit (uint c mod 16)) =
     Some (of_int (((uint c div 4096 * 16 + uint c div 256 mod 16) * 16 + uint c div 16 mod 16) * 16 +
       uint c mod 16))"
    by (simp add: hex4_def hex_value_hex_digit del: of_int_add of_int_mult)
  then show ?thesis
    by (simp only: int_recompose word_of_int_uint)
qed

lemma surrogate_plain:
  assumes "is_lead_surrogate c \<or> is_trail_surrogate c"
  shows "c \<noteq> 0x22" and "\<not> c < 0x20" and "c \<noteq> 0x5C"
proof -
  from assms have "0xD800 \<le> c"
    by (auto simp: is_lead_surrogate_def is_trail_surrogate_def elim: order_trans [rotated])
  moreover have "(0x20 :: char16) \<le> 0xD800" by simp
  ultimately have "0x20 \<le> c" by (rule order_trans [rotated])
  then show "\<not> c < 0x20" by simp
  from \<open>0xD800 \<le> c\<close> show "c \<noteq> 0x22" by auto
  from \<open>0xD800 \<le> c\<close> show "c \<noteq> 0x5C" by auto
qed

lemma scan_unicode_escape:
  "scan_string acc (unicode_escape c @ t) = scan_string (acc @ [c]) t"
  by (simp add: unicode_escape_def hex4_unicode_escape)

lemma scan_quoted_char:
  "scan_string acc (quote_chars [c] @ t) = scan_string (acc @ [c]) t"
proof -
  consider "c = 0x08" | "c = 0x09" | "c = 0x0A" | "c = 0x0C" | "c = 0x0D" | "c = 0x22" | "c = 0x5C"
    | "c \<notin> {0x08, 0x09, 0x0A, 0x0C, 0x0D, 0x22, 0x5C}"
      "c < 0x20 \<or> is_lead_surrogate c \<or> is_trail_surrogate c"
    | "c \<notin> {0x08, 0x09, 0x0A, 0x0C, 0x0D, 0x22, 0x5C}"
      "\<not> (c < 0x20 \<or> is_lead_surrogate c \<or> is_trail_surrogate c)"
    by blast
  then show ?thesis
  proof cases
    case 8
    then show ?thesis by (simp add: scan_unicode_escape)
  next
    case 9
    then show ?thesis by simp
  qed (simp_all add: escape_char_def)
qed

lemma scan_quoted:
  "scan_string acc (quote_chars s @ 0x22 # rest) = Some (acc @ s, rest)"
proof (induction s arbitrary: acc rule: quote_chars.induct)
  case 1
  show ?case by simp
next
  case (2 c)
  have "scan_string acc (quote_chars [c] @ 0x22 # rest) = scan_string (acc @ [c]) (0x22 # rest)"
    by (rule scan_quoted_char)
  then show ?case by simp
next
  case (3 c d cs)
  show ?case
  proof (cases "is_lead_surrogate c \<and> is_trail_surrogate d")
    case True
    then have lc: "is_lead_surrogate c \<or> is_trail_surrogate c"
      and ld: "is_lead_surrogate d \<or> is_trail_surrogate d"
      by simp_all
    have q: "quote_chars (c # d # cs) = c # d # quote_chars cs"
      using True by simp
    have "scan_string acc (quote_chars (c # d # cs) @ 0x22 # rest) =
        scan_string (acc @ [c, d]) (quote_chars cs @ 0x22 # rest)"
      unfolding q using surrogate_plain [OF lc] surrogate_plain [OF ld] by simp
    also have "\<dots> = Some (acc @ c # d # cs, rest)"
      using "3.IH"(1) [OF True, of "acc @ [c, d]"] by simp
    finally show ?thesis .
  next
    case False
    then have q: "quote_chars (c # d # cs) = quote_chars [c] @ quote_chars (d # cs)"
      by (subst quote_chars.simps(3)) (simp only: if_False)
    have "scan_string acc (quote_chars (c # d # cs) @ 0x22 # rest) =
        scan_string (acc @ [c]) (quote_chars (d # cs) @ 0x22 # rest)"
      unfolding q append_assoc by (rule scan_quoted_char)
    also have "\<dots> = Some (acc @ c # d # cs, rest)"
      using "3.IH"(3) [OF False, of "acc @ [c]"] by simp
    finally show ?thesis .
  qed
qed

subsection \<open>Number literals\<close>

text \<open>
  A number literal is scanned in the same way when a comma or a closing bracket, and
  whatever text after it, follows the literal.
\<close>

lemma delimited_no_digit: "delimited rest \<Longrightarrow> takeWhile is_digit rest = [] \<and> dropWhile is_digit rest = rest"
  by (cases rest) (auto simp: delimited_def is_digit_def)

lemma takeWhile_digits_append:
  assumes "delimited rest"
  shows "takeWhile is_digit (xs @ rest) = takeWhile is_digit xs"
    and "dropWhile is_digit (xs @ rest) = dropWhile is_digit xs @ rest"
  using delimited_no_digit [OF assms] by (induction xs) simp_all

lemma scan_fraction_append:
  assumes "scan_fraction cs = Some (fp, r)" and "delimited rest"
  shows "scan_fraction (cs @ rest) = Some (fp, r @ rest)"
proof (cases cs)
  case Nil
  with assms show ?thesis
    by (cases rest) (auto simp: scan_fraction_def delimited_def)
next
  case (Cons c r1)
  with assms(1) show ?thesis
    by (auto simp: scan_fraction_def takeWhile_digits_append [OF assms(2)] split: if_splits)
qed

lemma scan_exponent_append:
  assumes "scan_exponent cs = Some (ep, r)" and "delimited rest"
  shows "scan_exponent (cs @ rest) = Some (ep, r @ rest)"
proof (cases cs)
  case Nil
  with assms show ?thesis
    by (cases rest) (auto simp: scan_exponent_def delimited_def)
next
  case (Cons c r1)
  show ?thesis
  proof (cases "c = 0x65 \<or> c = 0x45")
    case False
    with assms(1) Cons show ?thesis
      by (auto simp: scan_exponent_def)
  next
    case True
    show ?thesis
    proof (cases r1)
      case Nil
      with assms(1) Cons True show ?thesis
        by (auto simp: scan_exponent_def)
    next
      case (Cons s t)
      with assms(1) \<open>cs = c # r1\<close> True show ?thesis
        by (auto simp: scan_exponent_def Let_def takeWhile_digits_append [OF assms(2)]
              split: if_splits)
    qed
  qed
qed

lemma scan_number_unfold:
  "scan_number (d # r1) =
     (if d = 0x2D then
        (case r1 of
           [] \<Rightarrow> None
         | e # r \<Rightarrow>
             if \<not> is_digit e then None
             else
               (case scan_fraction (if e = 0x30 then r else dropWhile is_digit r) of
                  None \<Rightarrow> None
                | Some (fp, r3) \<Rightarrow>
                    (case scan_exponent r3 of
                       None \<Rightarrow> None
                     | Some (ep, r4) \<Rightarrow>
                         Some (d # (if e = 0x30 then [e] else e # takeWhile is_digit r) @ fp @ ep, r4))))
      else if \<not> is_digit d then None
      else
        (case scan_fraction (if d = 0x30 then r1 else dropWhile is_digit r1) of
           None \<Rightarrow> None
         | Some (fp, r3) \<Rightarrow>
             (case scan_exponent r3 of
                None \<Rightarrow> None
              | Some (ep, r4) \<Rightarrow>
                  Some ((if d = 0x30 then [d] else d # takeWhile is_digit r1) @ fp @ ep, r4))))"
  by (cases r1) (simp_all add: scan_number_def Let_def dropWhile_eq_drop split: option.splits)

lemma scan_number_append:
  assumes h: "scan_number cs = Some (lit, r)" and d: "delimited rest"
  shows "scan_number (cs @ rest) = Some (lit, r @ rest)"
proof -
  obtain c r1 where cs: "cs = c # r1"
    using h by (cases cs) (auto simp: scan_number_def)
  note t = takeWhile_digits_append [OF d]
  show ?thesis
  proof (cases "c = 0x2D")
    case True
    with h cs obtain e r2 where r1: "r1 = e # r2" and e: "is_digit e"
      by (cases r1) (auto simp: scan_number_unfold split: if_splits)
    from h obtain fp r3 ep where
      a: "scan_fraction (if e = 0x30 then r2 else dropWhile is_digit r2) = Some (fp, r3)"
      and b: "scan_exponent r3 = Some (ep, r)"
      and l: "lit = c # (if e = 0x30 then [e] else e # takeWhile is_digit r2) @ fp @ ep"
      unfolding cs r1 scan_number_unfold [of c] using True e
      by (auto split: option.splits)
    have a': "scan_fraction (if e = 0x30 then r2 @ rest else dropWhile is_digit (r2 @ rest)) =
        Some (fp, r3 @ rest)"
      using scan_fraction_append [OF a d] by (simp add: t split: if_splits)
    show ?thesis
      unfolding cs r1 append_Cons scan_number_unfold [of c]
      using True e by (simp add: a' scan_exponent_append [OF b d] l t)
  next
    case False
    with h cs have e: "is_digit c"
      by (auto simp: scan_number_unfold split: if_splits)
    from h obtain fp r3 ep where
      a: "scan_fraction (if c = 0x30 then r1 else dropWhile is_digit r1) = Some (fp, r3)"
      and b: "scan_exponent r3 = Some (ep, r)"
      and l: "lit = (if c = 0x30 then [c] else c # takeWhile is_digit r1) @ fp @ ep"
      unfolding cs scan_number_unfold [of c] using False e
      by (auto split: option.splits)
    have a': "scan_fraction (if c = 0x30 then r1 @ rest else dropWhile is_digit (r1 @ rest)) =
        Some (fp, r3 @ rest)"
      using scan_fraction_append [OF a d] by (simp add: t split: if_splits)
    show ?thesis
      unfolding cs append_Cons scan_number_unfold [of c]
      using False e by (simp add: a' scan_exponent_append [OF b d] l t)
  qed
qed

lemma scan_number_head:
  assumes "scan_number cs = Some (lit, r)"
  shows "\<exists>c cs'. cs = c # cs' \<and> (c = 0x2D \<or> is_digit c)"
proof -
  obtain c cs' where cs: "cs = c # cs'"
    using assms by (cases cs) (auto simp: scan_number_def)
  with assms show ?thesis
    by (cases "c = 0x2D") (auto simp: scan_number_unfold split: if_splits)
qed

subsection \<open>The tokens of the text of a value\<close>

lemma tokenize_quoted:
  "tokenize (QuoteJSONString s @ rest) = map_option ((#) (TString s)) (tokenize rest)"
  by (simp add: QuoteJSONString_def is_ws_def scan_quoted)

lemma tokenize_literal:
  assumes "scan_number lit = Some (lit, [])" and "delimited rest"
  shows "tokenize (lit @ rest) = map_option ((#) (TNumber lit)) (tokenize rest)"
proof -
  from scan_number_head [OF assms(1)] obtain c cs where
    lit: "lit = c # cs" and c: "c = 0x2D \<or> is_digit c"
    by blast
  have s: "scan_number (c # cs @ rest) = Some (lit, rest)"
    using scan_number_append [OF assms] by (simp add: lit)
  from c have "\<not> is_ws c" "c \<noteq> 0x7B" "c \<noteq> 0x7D" "c \<noteq> 0x5B" "c \<noteq> 0x5D" "c \<noteq> 0x3A"
    "c \<noteq> 0x2C" "c \<noteq> 0x22"
    by (auto simp: is_ws_def is_digit_def)
  with c s show ?thesis
    unfolding lit append_Cons by (simp del: One_nat_def)
qed

lemma tokenize_words:
  "tokenize (ascii ''null'' @ rest) = map_option ((#) TNull) (tokenize rest)"
  "tokenize (ascii ''true'' @ rest) = map_option ((#) TTrue) (tokenize rest)"
  "tokenize (ascii ''false'' @ rest) = map_option ((#) TFalse) (tokenize rest)"
  by (simp_all add: ascii_def is_ws_def is_digit_def)

lemma tokenize_punctuation:
  "tokenize (0x5B # rest) = map_option ((#) TLBracket) (tokenize rest)"
  "tokenize (0x5D # rest) = map_option ((#) TRBracket) (tokenize rest)"
  "tokenize (0x7B # rest) = map_option ((#) TLBrace) (tokenize rest)"
  "tokenize (0x7D # rest) = map_option ((#) TRBrace) (tokenize rest)"
  "tokenize (0x2C # rest) = map_option ((#) TComma) (tokenize rest)"
  "tokenize (0x3A # rest) = map_option ((#) TColon) (tokenize rest)"
  by (simp_all add: is_ws_def)

lemma delimited_punctuation:
  "delimited []" "delimited (0x2C # rest)" "delimited (0x5D # rest)" "delimited (0x7D # rest)"
  by (simp_all add: delimited_def)

lemma tokenize_join:
  assumes e: "\<And>x rest ts. x \<in> set xs \<Longrightarrow> tokenize rest = Some ts \<Longrightarrow> delimited rest \<Longrightarrow>
      tokenize (f x @ rest) = Some (g x @ ts)"
    and r: "tokenize rest = Some ts" and d: "delimited rest"
  shows "tokenize (join (map f xs) @ rest) = Some (separated (map g xs) @ ts)"
  using e
proof (induction xs rule: induct_list012)
  case 1
  show ?case by (simp add: r)
next
  case (2 x)
  show ?case using "2.prems" [OF _ r d] by simp
next
  case (3 x y zs)
  have "tokenize (join (map f (y # zs)) @ rest) = Some (separated (map g (y # zs)) @ ts)"
    by (rule "3.IH"(2)) (simp add: "3.prems")
  then have "tokenize (0x2C # join (map f (y # zs)) @ rest) =
      Some (TComma # separated (map g (y # zs)) @ ts)"
    by (simp only: tokenize_punctuation option.map)
  from "3.prems" [OF _ this delimited_punctuation(2)]
  show ?case by simp
qed

lemma tokenize_serialize:
  assumes "numbers_survive N v" and "tokenize rest = Some ts" and "delimited rest"
  shows "tokenize (serialize N v @ rest) = Some (tokens_of N v @ ts)"
  using assms
proof (induction v arbitrary: rest ts)
  case Null
  then show ?case by (simp add: tokenize_words)
next
  case (Boolean b)
  then show ?case by (simp add: tokenize_words)
next
  case (Number n)
  then show ?case by (simp add: tokenize_literal)
next
  case (String s)
  then show ?case by (simp add: tokenize_quoted)
next
  case (Array xs ps)
  have "tokenize (0x5D # rest) = Some (TRBracket # ts)"
    by (simp only: tokenize_punctuation Array.prems(2) option.map)
  have "tokenize (join (map (serialize N) xs) @ 0x5D # rest) =
      Some (separated (map (tokens_of N) xs) @ TRBracket # ts)"
  proof (rule tokenize_join [OF _ \<open>tokenize (0x5D # rest) = Some (TRBracket # ts)\<close>
        delimited_punctuation(3)])
    fix x r t
    assume x: "x \<in> set xs" and r: "tokenize r = Some t" and d: "delimited r"
    from Array.prems(1) x have "numbers_survive N x"
      by (simp add: list_all_iff)
    then show "tokenize (serialize N x @ r) = Some (tokens_of N x @ t)"
      using r d by (rule Array.IH(1) [OF x])
  qed
  then show ?case
    by (simp add: tokenize_punctuation del: tokenize.simps)
next
  case (Object ps)
  have c: "tokenize (0x7D # rest) = Some (TRBrace # ts)"
    by (simp only: tokenize_punctuation Object.prems(2) option.map)
  have "tokenize
      (join (map (\<lambda>p. QuoteJSONString (fst p) @ [0x3A] @ serialize N (snd p)) ps) @ 0x7D # rest) =
      Some (separated (map (\<lambda>p. [TString (fst p), TColon] @ tokens_of N (snd p)) ps) @
            TRBrace # ts)"
  proof (rule tokenize_join [OF _ c delimited_punctuation(4)])
    fix p r t
    assume p: "p \<in> set ps" and r: "tokenize r = Some t" and d: "delimited r"
    from Object.prems(1) p have "numbers_survive N (snd p)"
      by (simp add: list_all_iff)
    then have "tokenize (serialize N (snd p) @ r) = Some (tokens_of N (snd p) @ t)"
      using r d by (rule Object.IH [OF p snds.intros])
    then show "tokenize ((QuoteJSONString (fst p) @ [0x3A] @ serialize N (snd p)) @ r) =
        Some (([TString (fst p), TColon] @ tokens_of N (snd p)) @ t)"
      by (simp add: tokenize_quoted tokenize_punctuation del: tokenize.simps)
  qed
  then show ?case
    by (simp add: tokenize_punctuation del: tokenize.simps)
qed

subsection \<open>Parsing the tokens of a value\<close>

text \<open>
  A property written after the others of an object in the order of enumeration goes to
  the end, so parsing the tokens of an object builds its properties in their order.
\<close>

lemma separated_Cons: "separated (x # xs) = x @ concat (map (\<lambda>t. TComma # t) xs)"
  by (induction xs arbitrary: x) simp_all

lemma insert_index_last:
  "\<forall>q\<in>set ps. is_array_index (fst q) \<and> index_value (fst q) < index_value (fst p) \<Longrightarrow>
   insert_index p ps = ps @ [p]"
  by (induction ps) simp_all

lemma enumerated_prefix: "enumerated (xs @ ys) \<Longrightarrow> enumerated xs"
  by (simp add: enumerated_def sorted_wrt_append)

lemma put_property_new:
  assumes "enumerated (map fst ps @ [k])"
  shows "put_property ps k v = ps @ [(k, v)]"
proof -
  from assms have n: "k \<notin> fst ` set ps"
    and i: "is_array_index k \<Longrightarrow>
      \<forall>q\<in>set ps. is_array_index (fst q) \<and> index_value (fst q) < index_value k"
    by (auto simp: enumerated_def sorted_wrt_append)
  show ?thesis
  proof (cases "is_array_index k")
    case True
    from i [OF True] have "insert_index (k, v) ps = ps @ [(k, v)]"
      by (intro insert_index_last) simp
    with n True show ?thesis by (simp add: put_property_def)
  next
    case False
    with n show ?thesis by (simp add: put_property_def)
  qed
qed

lemma accept_value_expects: "expects_value st \<Longrightarrow> \<exists>s. accept_value v st = Some s"
  by (induction st rule: expects_value.induct) simp_all

lemma parse_string_value:
  "expects_value st \<Longrightarrow> parse_step N (Parsing st) (TString s) = accept_value (String s) st"
  by (induction st rule: expects_value.induct) simp_all

lemma parse_elements:
  assumes "\<And>x st ts. x \<in> set xs \<Longrightarrow> expects_value st \<Longrightarrow>
      parse_tokens N (Parsing st) (tokens_of N x @ ts) =
        (case accept_value x st of None \<Rightarrow> Inl SyntaxError | Some s \<Rightarrow> parse_tokens N s ts)"
  shows "parse_tokens N (Parsing (ArrayValue vs # st))
           (concat (map (\<lambda>t. TComma # t) (map (tokens_of N) xs)) @ ts) =
         parse_tokens N (Parsing (ArrayValue (vs @ xs) # st)) ts"
  using assms
proof (induction xs arbitrary: vs)
  case Nil
  show ?case by simp
next
  case (Cons x xs)
  have "parse_tokens N (Parsing (ArrayComma vs # st))
          (tokens_of N x @ concat (map (\<lambda>t. TComma # t) (map (tokens_of N) xs)) @ ts) =
        parse_tokens N (Parsing (ArrayValue (vs @ [x]) # st))
          (concat (map (\<lambda>t. TComma # t) (map (tokens_of N) xs)) @ ts)"
    by (subst Cons.prems) simp_all
  also have "\<dots> = parse_tokens N (Parsing (ArrayValue ((vs @ [x]) @ xs) # st)) ts"
    by (rule Cons.IH) (simp add: Cons.prems)
  finally show ?case by simp
qed

lemma parse_properties:
  assumes "\<And>p st ts. p \<in> set ps \<Longrightarrow> expects_value st \<Longrightarrow>
      parse_tokens N (Parsing st) (tokens_of N (snd p) @ ts) =
        (case accept_value (snd p) st of
           None \<Rightarrow> Inl SyntaxError
         | Some s \<Rightarrow> parse_tokens N s ts)"
    and "enumerated (map fst (qs @ ps))"
  shows "parse_tokens N (Parsing (ObjectValue qs # st))
           (concat (map (\<lambda>t. TComma # t)
              (map (\<lambda>p. [TString (fst p), TColon] @ tokens_of N (snd p)) ps)) @ ts) =
         parse_tokens N (Parsing (ObjectValue (qs @ ps) # st)) ts"
  using assms
proof (induction ps arbitrary: qs)
  case Nil
  show ?case by simp
next
  case (Cons p ps)
  let ?rest = "concat (map (\<lambda>t. TComma # t)
      (map (\<lambda>p. [TString (fst p), TColon] @ tokens_of N (snd p)) ps)) @ ts"
  from Cons.prems(2) have "enumerated ((map fst qs @ [fst p]) @ map fst ps)"
    by simp
  then have "enumerated (map fst qs @ [fst p])"
    by (rule enumerated_prefix)
  then have n: "put_property qs (fst p) (snd p) = qs @ [p]"
    by (simp add: put_property_new)
  have "parse_tokens N (Parsing (ObjectColon qs (fst p) # st)) (tokens_of N (snd p) @ ?rest) =
        parse_tokens N (Parsing (ObjectValue (qs @ [p]) # st)) ?rest"
    by (subst Cons.prems(1)) (simp_all add: n)
  also have "\<dots> = parse_tokens N (Parsing (ObjectValue ((qs @ [p]) @ ps) # st)) ts"
    by (rule Cons.IH) (use Cons.prems in simp_all)
  finally show ?case by simp
qed

lemma parse_tokens_of:
  assumes "parsed_shape v" and "numbers_survive N v" and "expects_value st"
  shows "parse_tokens N (Parsing st) (tokens_of N v @ ts) =
    (case accept_value v st of None \<Rightarrow> Inl SyntaxError | Some s \<Rightarrow> parse_tokens N s ts)"
  using assms
proof (induction v arbitrary: st ts)
  case Null
  then show ?case by simp
next
  case (Boolean b)
  then show ?case by simp
next
  case (Number n)
  then show ?case by simp
next
  case (String s)
  then show ?case by (simp add: parse_string_value del: parse_step.simps)
next
  case (Array xs ps)
  from Array.prems have ps: "ps = []" by simp
  have e: "parse_tokens N (Parsing st') (tokens_of N x @ ts') =
      (case accept_value x st' of None \<Rightarrow> Inl SyntaxError | Some s \<Rightarrow> parse_tokens N s ts')"
    if "x \<in> set xs" and "expects_value st'" for x st' ts'
    using Array.prems that by (intro Array.IH(1)) (simp_all add: list_all_iff)
  show ?case
  proof (cases xs)
    case Nil
    with Array.prems(3) show ?thesis by (simp add: ps)
  next
    case (Cons x xs')
    have "parse_tokens N (Parsing (ArrayStart # st))
            (tokens_of N x @ concat (map (\<lambda>t. TComma # t) (map (tokens_of N) xs')) @
             TRBracket # ts) =
          parse_tokens N (Parsing (ArrayValue [x] # st))
            (concat (map (\<lambda>t. TComma # t) (map (tokens_of N) xs')) @ TRBracket # ts)"
      by (subst e) (simp_all add: Cons)
    also have "\<dots> = parse_tokens N (Parsing (ArrayValue ([x] @ xs') # st)) (TRBracket # ts)"
      by (rule parse_elements) (simp_all add: e Cons)
    finally show ?thesis
      using Array.prems(3) by (simp add: ps Cons separated_Cons)
  qed
next
  case (Object ps)
  have e: "parse_tokens N (Parsing st') (tokens_of N (snd p) @ ts') =
      (case accept_value (snd p) st' of
         None \<Rightarrow> Inl SyntaxError
       | Some s \<Rightarrow> parse_tokens N s ts')"
    if "p \<in> set ps" and "expects_value st'" for p st' ts'
    using Object.prems that by (intro Object.IH [OF _ snds.intros]) (simp_all add: list_all_iff)
  show ?case
  proof (cases ps)
    case Nil
    with Object.prems(3) show ?thesis by simp
  next
    case (Cons p ps')
    let ?rest = "concat (map (\<lambda>t. TComma # t)
      (map (\<lambda>p. [TString (fst p), TColon] @ tokens_of N (snd p)) ps')) @ TRBrace # ts"
    have n: "put_property [] (fst p) (snd p) = [p]"
      by (simp add: put_property_def)
    have "parse_tokens N (Parsing (ObjectColon [] (fst p) # st)) (tokens_of N (snd p) @ ?rest) =
          parse_tokens N (Parsing (ObjectValue [p] # st)) ?rest"
      by (subst e) (simp_all add: Cons n)
    also have "\<dots> = parse_tokens N (Parsing (ObjectValue ([p] @ ps') # st)) (TRBrace # ts)"
      by (rule parse_properties) (use Object.prems(1) in \<open>simp_all add: e Cons\<close>)
    finally show ?thesis
      using Object.prems(3) by (simp add: Cons separated_Cons)
  qed
qed

subsection \<open>Array indices\<close>

text \<open>Two array indices of the same value are the same string.\<close>

lemma digit_value:
  assumes "is_digit c"
  shows "uint (c - 0x30) = uint c - 48" and "48 \<le> uint c" and "uint c \<le> 57"
proof -
  from assms have a: "uint (0x30 :: char16) \<le> uint c" and b: "uint c \<le> uint (0x39 :: char16)"
    by (simp_all add: is_digit_def word_le_def)
  from a show "48 \<le> uint c" by simp
  from b show "uint c \<le> 57" by simp
  from a have "uint (c - 0x30) = uint c - uint (0x30 :: char16)"
    by (simp only: uint_sub_lem)
  then show "uint (c - 0x30) = uint c - 48" by simp
qed

lemma foldl_digits_shift:
  "foldl (\<lambda>a c. 10 * a + uint (c - 0x30)) a k =
     a * 10 ^ length k + foldl (\<lambda>a c. 10 * a + uint (c - 0x30)) 0 (k :: jsstring)"
proof (induction k arbitrary: a)
  case Nil
  show ?case by simp
next
  case (Cons c cs)
  let ?f = "\<lambda>a c. 10 * a + uint (c - (0x30 :: char16))"
  have "foldl ?f a (c # cs) = foldl ?f (10 * a + uint (c - 0x30)) cs"
    by simp
  also have "\<dots> = (10 * a + uint (c - 0x30)) * 10 ^ length cs + foldl ?f 0 cs"
    by (rule Cons.IH)
  finally have l: "foldl ?f a (c # cs) =
      (10 * a + uint (c - 0x30)) * 10 ^ length cs + foldl ?f 0 cs" .
  have "foldl ?f 0 (c # cs) = foldl ?f (uint (c - 0x30)) cs"
    by simp
  also have "\<dots> = uint (c - 0x30) * 10 ^ length cs + foldl ?f 0 cs"
    by (rule Cons.IH)
  finally have r: "foldl ?f 0 (c # cs) = uint (c - 0x30) * 10 ^ length cs + foldl ?f 0 cs" .
  show ?case
    unfolding l r by (simp add: algebra_simps)
qed

lemma index_value_Cons:
  "index_value (c # cs) = uint (c - 0x30) * 10 ^ length cs + index_value cs"
  using foldl_digits_shift [of "uint (c - 0x30)" cs] by (simp add: index_value_def)

lemma index_value_bounds:
  "list_all is_digit k \<Longrightarrow> 0 \<le> index_value k \<and> index_value k < 10 ^ length k"
proof (induction k)
  case Nil
  show ?case by (simp add: index_value_def)
next
  case (Cons c cs)
  then have d: "is_digit c" and i: "0 \<le> index_value cs" "index_value cs < 10 ^ length cs"
    by simp_all
  have "uint (c - 0x30) * 10 ^ length cs \<le> 9 * 10 ^ length cs"
    using digit_value [OF d] by (intro mult_right_mono) simp_all
  moreover have "0 \<le> uint (c - 0x30) * 10 ^ length cs"
    using digit_value [OF d] by simp
  ultimately show ?case
    unfolding index_value_Cons length_Cons power_Suc using i by linarith
qed

lemma index_value_lower:
  assumes "list_all is_digit k" and "k \<noteq> []" and "hd k \<noteq> 0x30"
  shows "10 ^ (length k - 1) \<le> index_value k"
proof -
  from assms obtain c cs where k: "k = c # cs" by (cases k) auto
  with assms have d: "is_digit c" and z: "c \<noteq> 0x30" and r: "list_all is_digit cs"
    by simp_all
  from z have "uint c \<noteq> uint (0x30 :: char16)"
    by (simp only: word_uint_eq_iff [symmetric] not_False_eq_True)
  with digit_value [OF d] have "1 \<le> uint (c - 0x30)" by simp
  then have "1 * 10 ^ length cs \<le> uint (c - 0x30) * 10 ^ length cs"
    by (intro mult_right_mono) simp_all
  moreover have "length k - 1 = length cs"
    by (simp add: k)
  ultimately show ?thesis
    unfolding k index_value_Cons \<open>length k - 1 = length cs\<close> [unfolded k]
    using index_value_bounds [OF r] by linarith
qed

lemma index_value_same_length:
  assumes "length a = length b" and "list_all is_digit a" and "list_all is_digit b"
    and "index_value a = index_value b"
  shows "a = b"
  using assms
proof (induction a b rule: list_induct2)
  case Nil
  show ?case by simp
next
  case (Cons x xs y ys)
  then have dx: "is_digit x" and dy: "is_digit y"
    and rx: "list_all is_digit xs" and ry: "list_all is_digit ys"
    by simp_all
  let ?P = "(10 :: int) ^ length xs"
  from Cons.prems(3) Cons.hyps have e:
    "uint (x - 0x30) * ?P + index_value xs = uint (y - 0x30) * ?P + index_value ys"
    by (simp add: index_value_Cons)
  from index_value_bounds [OF rx] have bx: "0 \<le> index_value xs" "index_value xs < ?P"
    by simp_all
  from index_value_bounds [OF ry] Cons.hyps have "by": "0 \<le> index_value ys" "index_value ys < ?P"
    by simp_all
  have "(uint (x - 0x30) * ?P + index_value xs) div ?P = uint (x - 0x30)"
    using bx by simp
  moreover have "(uint (y - 0x30) * ?P + index_value ys) div ?P = uint (y - 0x30)"
    using "by" by simp
  ultimately have q: "uint (x - 0x30) = uint (y - 0x30)"
    using e by simp
  with e have "index_value xs = index_value ys" by simp
  then have "xs = ys"
    using rx ry by (intro Cons.IH) simp_all
  moreover from q digit_value(1) [OF dx] digit_value(1) [OF dy] have "uint x = uint y"
    by simp
  then have "x = y" by (simp only: word_uint_eq_iff)
  ultimately show ?case by simp
qed

lemma index_value_inj:
  assumes a: "is_array_index a" and b: "is_array_index b"
    and e: "index_value a = index_value b"
  shows "a = b"
proof -
  have less: False
    if x: "is_array_index x" and y: "is_array_index y" and e: "index_value x = index_value y"
      and l: "length x < length y" for x y
  proof -
    from x have "0 < length x"
      by (simp add: is_array_index_def)
    with y l have "list_all is_digit y" "y \<noteq> []" "hd y \<noteq> 0x30"
      by (auto simp: is_array_index_def)
    then have "10 ^ (length y - 1) \<le> index_value y"
      by (rule index_value_lower)
    moreover from x have "index_value x < 10 ^ length x"
      by (simp add: is_array_index_def index_value_bounds)
    moreover from l have "(10 :: int) ^ length x \<le> 10 ^ (length y - 1)"
      by (intro power_increasing) simp_all
    ultimately show False unfolding e by linarith
  qed
  have "length a = length b"
    using less [OF a b e] less [OF b a e [symmetric]] by (meson linorder_neqE_nat)
  with a b e show ?thesis
    by (intro index_value_same_length) (simp_all add: is_array_index_def)
qed

subsection \<open>The shape of a parsed value\<close>

text \<open>
  Writing a property keeps the order of enumeration, so every value that the parser
  returns has the shape defined above.
\<close>

lemma set_insert_index: "set (insert_index p ps) = insert p (set ps)"
  by (induction ps) auto

lemma enumerated_Cons:
  "enumerated (k # ks) \<longleftrightarrow>
     k \<notin> set ks \<and>
     (\<forall>y\<in>set ks. is_array_index y \<longrightarrow> is_array_index k \<and> index_value k < index_value y) \<and>
     enumerated ks"
  by (auto simp: enumerated_def)

lemma enumerated_insert_index:
  assumes "is_array_index k" and "k \<notin> fst ` set ps" and "enumerated (map fst ps)"
  shows "enumerated (map fst (insert_index (k, v) ps))"
  using assms(2,3)
proof (induction ps)
  case Nil
  show ?case by (simp add: enumerated_def)
next
  case (Cons q qs)
  from Cons.prems have n: "k \<noteq> fst q" "k \<notin> fst ` set qs"
    and d: "fst q \<notin> fst ` set qs"
    and o: "\<forall>y\<in>fst ` set qs. is_array_index y \<longrightarrow>
              is_array_index (fst q) \<and> index_value (fst q) < index_value y"
    and e: "enumerated (map fst qs)"
    by (auto simp: enumerated_Cons)
  show ?case
  proof (cases "is_array_index (fst q) \<and> index_value (fst q) < index_value k")
    case True
    have "enumerated (map fst (insert_index (k, v) qs))"
      by (rule Cons.IH [OF n(2) e])
    with True n d o show ?thesis
      by (auto simp: enumerated_Cons set_insert_index)
  next
    case False
    have "index_value k < index_value y" if y: "y \<in> fst ` set (q # qs)" "is_array_index y" for y
    proof -
      from y o have q: "is_array_index (fst q)" and le: "index_value (fst q) \<le> index_value y"
        by auto
      with False have "index_value k \<le> index_value y" by simp
      moreover from y n have "k \<noteq> y" by auto
      with index_value_inj [OF assms(1) y(2)] have "index_value k \<noteq> index_value y" by blast
      ultimately show ?thesis by simp
    qed
    then have "enumerated (k # map fst (q # qs))"
      using Cons.prems n assms(1) by (subst enumerated_Cons) auto
    moreover have "insert_index (k, v) (q # qs) = (k, v) # q # qs"
      using False by auto
    ultimately show ?thesis by simp
  qed
qed

lemma enumerated_put_property:
  assumes "enumerated (map fst ps)"
  shows "enumerated (map fst (put_property ps k v))"
proof (cases "k \<in> fst ` set ps")
  case True
  have "map fst (map (\<lambda>q. if fst q = k then (k, v) else q) ps) = map fst ps"
    by (induction ps) simp_all
  with assms show ?thesis
    unfolding put_property_def by (simp only: True if_True)
next
  case False
  show ?thesis
  proof (cases "is_array_index k")
    case True
    with False enumerated_insert_index [OF True False assms] show ?thesis
      by (simp add: put_property_def)
  next
    case n: False
    with False assms show ?thesis
      by (simp add: put_property_def enumerated_def sorted_wrt_append)
  qed
qed

lemma set_put_property: "set (put_property ps k v) \<subseteq> insert (k, v) (set ps)"
  by (auto simp: put_property_def set_insert_index)

lemma parsed_shape_put_property:
  assumes "parsed_shape (Object ps)" and "parsed_shape v"
  shows "parsed_shape (Object (put_property ps k v))"
proof -
  from assms have "\<forall>p\<in>insert (k, v) (set ps). parsed_shape (snd p)"
    by (simp add: list_all_iff)
  with set_put_property [of ps k v] have "\<forall>p\<in>set (put_property ps k v). parsed_shape (snd p)"
    by blast
  with assms(1) show ?thesis
    by (simp add: list_all_iff enumerated_put_property)
qed

lemma accept_value_shape:
  assumes "parsed_shape v" and "list_all frame_shape st" and "accept_value v st = Some s"
  shows "state_shape s"
proof (cases st)
  case Nil
  with assms show ?thesis by auto
next
  case (Cons f st')
  with assms show ?thesis
    by (cases f) (auto simp: parsed_shape_put_property simp del: parsed_shape.simps(2))
qed

lemma parse_step_shape:
  assumes "state_shape s" and "parse_step N s t = Some s'"
  shows "state_shape s'"
proof (cases s)
  case (Done v)
  with assms show ?thesis by simp
next
  case (Parsing st)
  have a: "state_shape s'" if "accept_value v st' = Some s'" "parsed_shape v" "list_all frame_shape st'"
    for v st'
    using that accept_value_shape by blast
  have e: "parsed_shape (Object [])"
    by (simp add: enumerated_def)
  show ?thesis
  proof (cases st)
    case Nil
    with assms Parsing show ?thesis
      by (cases t) (auto simp: enumerated_def)
  next
    case (Cons f st')
    with assms Parsing show ?thesis
      by (cases t; cases f)
        (auto simp: e parsed_shape_put_property intro: a simp del: parsed_shape.simps(2)
           split: if_splits)
  qed
qed

lemma parse_tokens_shape:
  "state_shape s \<Longrightarrow> parse_tokens N s ts = Inr v \<Longrightarrow> parsed_shape v"
proof (induction ts arbitrary: s)
  case Nil
  then show ?case by (cases s) simp_all
next
  case (Cons t ts)
  from Cons.prems(2) obtain s' where s': "parse_step N s t = Some s'"
    and r: "parse_tokens N s' ts = Inr v"
    by (auto split: option.splits)
  from Cons.prems(1) s' have "state_shape s'"
    by (rule parse_step_shape)
  then show ?case using r by (rule Cons.IH)
qed

lemma JSON_parse_shape: "JSON_parse N raw = Inr v \<Longrightarrow> parsed_shape v"
  by (auto simp: JSON_parse_def split: option.splits intro: parse_tokens_shape [rotated])

subsection \<open>The round trip\<close>

text \<open>
  The text of a value of the shape that the parser builds, in which every Number
  survives, parses to that value.
\<close>

lemma parse_serialize:
  assumes "parsed_shape v" and "numbers_survive N v"
  shows "JSON_parse N (serialize N v) = Inr v"
proof -
  have "tokenize (serialize N v @ []) = Some (tokens_of N v @ [])"
    using assms(2) by (rule tokenize_serialize) (simp_all add: delimited_def)
  moreover have "parse_tokens N (Parsing []) (tokens_of N v @ []) = Inr v"
    by (simp add: parse_tokens_of [OF assms] del: append_Nil2)
  ultimately show ?thesis
    by (simp add: JSON_parse_def)
qed

text \<open>
  The body of a 200 answer to a parsed object, parsed again, gives the normalised object
  when every Number in it survives the serialiser and the parser.
\<close>

lemma body_parses_back:
  assumes "existsSync w SAIDA_PATH" and "readFileSync w SAIDA_PATH = Inr raw"
    and "JSON_parse N raw = Inr (Object ps)"
    and "\<not> exhausts_stack N (Object (if Array_isArray (map_of ps posicional) then ps
                                      else put_property ps posicional (Array [] [])))"
    and "numbers_survive N (Object (if Array_isArray (map_of ps posicional) then ps
                                    else put_property ps posicional (Array [] [])))"
  shows "JSON_parse N (body N (fst (handler N req w))) =
    Inr (Object (if Array_isArray (map_of ps posicional) then ps
                 else put_property ps posicional (Array [] [])))"
proof -
  let ?ps' = "if Array_isArray (map_of ps posicional) then ps
              else put_property ps posicional (Array [] [])"
  have t: "try_block N w = Inr (Object ?ps')"
    using assms(4) by (simp only: try_block_object [OF assms(1-3)] res_json_eq if_False)
  have h: "fst (handler N req w) = \<lparr>status = 200, payload = Object ?ps'\<rparr>"
    by (simp add: handler_success [OF t])
  have s: "parsed_shape (Object ps)"
    using assms(3) by (rule JSON_parse_shape)
  have "parsed_shape (Object ?ps')"
  proof (cases "Array_isArray (map_of ps posicional)")
    case True
    with s show ?thesis by (simp only: if_True)
  next
    case False
    have "parsed_shape (Array [] [] :: 'a jsval)" by simp
    with s have "parsed_shape (Object (put_property ps posicional (Array [] [])))"
      by (rule parsed_shape_put_property)
    with False show ?thesis by (simp only: if_False)
  qed
  then have "JSON_parse N (serialize N (Object ?ps')) = Inr (Object ?ps')"
    using assms(5) by (rule parse_serialize)
  then show ?thesis
    by (simp only: body_def h response.simps)
qed

section \<open>The claims\<close>

text \<open>
  Claim C1 says that every body is a single JSON object and that a file containing
  \<open>[1,2,3]\<close> gives \<open>{"posicional":[],"ultima_atualizacao":null}\<close>. The guard
  \<open>!data || typeof data !== "object"\<close> replaces \<open>null\<close>, booleans, numbers and strings,
  but an array is truthy and its \<open>typeof\<close> is \<open>"object"\<close>, so it passes; the assignment
  \<open>data.posicional = []\<close> then adds a named property to the array, which
  \<open>JSON.stringify\<close> does not visit. For the file \<open>[1,2,3]\<close> the handler answers 200
  with the bare array \<open>[1,2,3]\<close> as body.
\<close>

theorem bare_array_is_returned:
  \<open>fst (handler integers get_request (on_disk (ascii ''[1,2,3]''))) =
     \<lparr>status = 200,
      payload = Array [Number 1, Number 2, Number 3] [(posicional, Array [] [])]\<rparr> \<and>
   body integers (fst (handler integers get_request (on_disk (ascii ''[1,2,3]'')))) =
     ascii ''[1,2,3]'' \<and>
   body integers (fst (handler integers get_request (on_disk (ascii ''[1,2,3]'')))) \<noteq>
     ascii ''{"posicional":[],"ultima_atualizacao":null}''\<close>
proof -
  have p: \<open>JSON_parse integers (ascii ''[1,2,3]'') = Inr (Array [Number 1, Number 2, Number 3] [])\<close>
    by code_simp
  have q: "put_property [] posicional (Array [] [] :: int jsval) = [(posicional, Array [] [])]"
    by code_simp
  have t: \<open>try_block integers (on_disk (ascii ''[1,2,3]'')) =
     Inr (Array [Number 1, Number 2, Number 3] [(posicional, Array [] [])])\<close>
    using try_block_array [OF on_disk_exists on_disk_read p] by (simp add: q res_json_shallow)
  have h: \<open>fst (handler integers get_request (on_disk (ascii ''[1,2,3]''))) =
     \<lparr>status = 200,
      payload = Array [Number 1, Number 2, Number 3] [(posicional, Array [] [])]\<rparr>\<close>
    by (simp add: handler_success [OF t])
  have s: \<open>serialize integers
       (Array [Number 1, Number 2, Number 3] [(posicional, Array [] [])]) = ascii ''[1,2,3]''\<close>
    by code_simp
  have b: \<open>body integers (fst (handler integers get_request (on_disk (ascii ''[1,2,3]'')))) =
     ascii ''[1,2,3]''\<close>
    unfolding body_def h by (simp only: response.simps s)
  have n: \<open>ascii ''[1,2,3]'' \<noteq> ascii ''{"posicional":[],"ultima_atualizacao":null}''\<close>
    by code_simp
  have b': \<open>body integers (fst (handler integers get_request (on_disk (ascii ''[1,2,3]'')))) \<noteq>
     ascii ''{"posicional":[],"ultima_atualizacao":null}''\<close>
    unfolding b by (rule n)
  show ?thesis
    by (rule conjI [OF h conjI [OF b b']])
qed




text \<open>
  Claim C3. When nothing exists at the configured path, the handler answers 200 with the
  body \<open>{"posicional":[],"ultima_atualizacao":null}\<close>, and the absence is not treated as
  an error: nothing is written to the console and the world is left as it was.
\<close>

theorem absent_file_default:
  assumes "\<not> existsSync w SAIDA_PATH"
  shows \<open>handler N req w = (\<lparr>status = 200, payload = empty_document\<rparr>, w) \<and>
         body N (fst (handler N req w)) = ascii ''{"posicional":[],"ultima_atualizacao":null}''\<close>
  using assms
  by (simp add: handler_success try_block_absent body_def serialize_empty_document)

theorem absent_file_default_witness:
  \<open>\<not> existsSync nothing_on_disk SAIDA_PATH \<and>
   handler integers get_request nothing_on_disk =
     (\<lparr>status = 200, payload = empty_document\<rparr>, nothing_on_disk) \<and>
   body integers (fst (handler integers get_request nothing_on_disk)) =
     ascii ''{"posicional":[],"ultima_atualizacao":null}''\<close>
  by (rule conjI [OF nothing_on_disk_absent absent_file_default [OF nothing_on_disk_absent]])




text \<open>
  Claim C5. When the file exists, its text is read and \<open>JSON.parse\<close> rejects the text,
  the handler answers 500 with an object whose only key is \<open>erro\<close>; the answer is never
  200 and carries nothing of the file's content.
\<close>

theorem invalid_json_is_500:
  assumes "existsSync w SAIDA_PATH" and "readFileSync w SAIDA_PATH = Inr raw"
    and "JSON_parse N raw = Inl err"
  shows "fst (handler N req w) = \<lparr>status = 500, payload = Object [(erro, String falha)]\<rparr> \<and>
         status (fst (handler N req w)) \<noteq> 200"
  using assms
  by (simp add: handler_failure try_block_parse_error failure_document_def)

theorem invalid_json_is_500_witness:
  \<open>JSON_parse integers (ascii ''not valid json{{{'') = Inl SyntaxError \<and>
   fst (handler integers get_request (on_disk (ascii ''not valid json{{{''))) =
     \<lparr>status = 500, payload = Object [(erro, String falha)]\<rparr> \<and>
   status (fst (handler integers get_request (on_disk (ascii ''not valid json{{{'')))) \<noteq> 200\<close>
proof -
  have p: \<open>JSON_parse integers (ascii ''not valid json{{{'') = Inl SyntaxError\<close>
    by code_simp
  show ?thesis
    by (rule conjI [OF p invalid_json_is_500 [OF on_disk_exists on_disk_read p]])
qed

text \<open>
  Claim C6 says that a \<open>posicional\<close> that is not an array is always replaced by the
  empty array. The call of \<open>res.json\<close> is inside the \<open>try\<close> block: when another key
  of the same object holds a value nested so deeply that the serialiser exhausts the
  call stack, the RangeError reaches the \<open>catch\<close> clause and the answer is the 500
  failure response, which has no \<open>posicional\<close> at all. On the example engine this
  happens for \<open>{"posicional":"x","fundo":[[...]]}\<close> with 4501 nested arrays.
\<close>

theorem deep_value_beside_posicional:
  \<open>fst (handler integers get_request
     (on_disk (ascii ''{"posicional":"x","fundo":'' @ brackets 4500 @ ascii ''}''))) =
     \<lparr>status = 500, payload = failure_document\<rparr> \<and>
   JSON_parse integers (ascii ''{"posicional":"x","fundo":'' @ brackets 4500 @ ascii ''}'') =
     Inr (Object [(posicional, String (ascii ''x'')),
                  (ascii ''fundo'', nest 4500 (Array [] []))]) \<and>
   GetValue (payload (fst (handler integers get_request
     (on_disk (ascii ''{"posicional":"x","fundo":'' @ brackets 4500 @ ascii ''}'')))))
     posicional = Inr None\<close>
proof -
  have h: \<open>fst (handler integers get_request
     (on_disk (ascii ''{"posicional":"x","fundo":'' @ brackets 4500 @ ascii ''}''))) =
     \<lparr>status = 500, payload = failure_document\<rparr>\<close>
    by (simp add: deep_fundo_answer)
  have n: "posicional \<noteq> erro" by code_simp
  have g: \<open>GetValue (payload (fst (handler integers get_request
     (on_disk (ascii ''{"posicional":"x","fundo":'' @ brackets 4500 @ ascii ''}'')))))
     posicional = Inr None\<close>
    unfolding h using n by (simp add: GetValue_failure_document)
  show ?thesis
    by (rule conjI [OF h conjI [OF parse_fundo g]])
qed

text \<open>
  Claim C6, as the handler has it. When the content parses to an object that has
  \<open>posicional\<close> with a value that is not an array (a string, a number, an object,
  \<open>null\<close>, a boolean), the normalised object has the empty array at \<open>posicional\<close>, in
  its place, and every other property as in the source. Unless serialising that object
  exhausts the call stack, the handler answers 200 with it, so \<open>posicional\<close> is the
  empty array and \<open>ultima_atualizacao\<close> is as in the source, and when every Number
  in it survives the serialiser and the parser, the body parses to that object; when the
  stack is exhausted, the answer is the 500 failure response.
\<close>

theorem non_array_posicional_emptied:
  assumes "existsSync w SAIDA_PATH" and "readFileSync w SAIDA_PATH = Inr raw"
    and "JSON_parse N raw = Inr (Object ps)"
    and "map_of ps posicional = Some v"
    and "\<not> Array_isArray (Some v)"
  shows "(\<not> exhausts_stack N (Object (put_property ps posicional (Array [] []))) \<longrightarrow>
           fst (handler N req w) =
             \<lparr>status = 200, payload = Object (put_property ps posicional (Array [] []))\<rparr> \<and>
           GetValue (payload (fst (handler N req w))) posicional = Inr (Some (Array [] [])) \<and>
           GetValue (payload (fst (handler N req w))) ultima_atualizacao =
             Inr (map_of ps ultima_atualizacao) \<and>
           (numbers_survive N (Object (put_property ps posicional (Array [] []))) \<longrightarrow>
              JSON_parse N (body N (fst (handler N req w))) =
                Inr (Object (put_property ps posicional (Array [] []))))) \<and>
         (exhausts_stack N (Object (put_property ps posicional (Array [] []))) \<longrightarrow>
           fst (handler N req w) = \<lparr>status = 500, payload = failure_document\<rparr>)"
proof -
  let ?ps' = "put_property ps posicional (Array [] [])"
  have n: "(if Array_isArray (map_of ps posicional) then ps else ?ps') = ?ps'"
    using assms(4,5) by simp
  have a: "(\<not> exhausts_stack N (Object ?ps') \<longrightarrow>
           fst (handler N req w) = \<lparr>status = 200, payload = Object ?ps'\<rparr> \<and>
           GetValue (payload (fst (handler N req w))) posicional = Inr (Some (Array [] [])) \<and>
           GetValue (payload (fst (handler N req w))) ultima_atualizacao =
             Inr (map_of ps ultima_atualizacao)) \<and>
         (exhausts_stack N (Object ?ps') \<longrightarrow>
           fst (handler N req w) = \<lparr>status = 500, payload = failure_document\<rparr>)"
    using assms ultima_atualizacao_not_posicional
    by (simp add: handler_def try_block_object res_json_eq map_of_put_property)
  have b: "JSON_parse N (body N (fst (handler N req w))) = Inr (Object ?ps')"
    if "\<not> exhausts_stack N (Object ?ps')" and "numbers_survive N (Object ?ps')"
    using body_parses_back [OF assms(1-3), unfolded n, OF that] .
  from a b show ?thesis by blast
qed

theorem non_array_posicional_emptied_witness:
  \<open>JSON_parse integers (ascii ''{"ultima_atualizacao":"t","posicional":{"a":null}}'') =
     Inr (Object [(ultima_atualizacao, String (ascii ''t'')),
                  (posicional, Object [(ascii ''a'', Null)])]) \<and>
   \<not> Array_isArray (Some (Object [(ascii ''a'', Null :: int jsval)])) \<and>
   fst (handler integers get_request
          (on_disk (ascii ''{"ultima_atualizacao":"t","posicional":{"a":null}}''))) =
     \<lparr>status = 200,
      payload = Object [(ultima_atualizacao, String (ascii ''t'')), (posicional, Array [] [])]\<rparr> \<and>
   body integers (fst (handler integers get_request
          (on_disk (ascii ''{"ultima_atualizacao":"t","posicional":{"a":null}}'')))) =
     ascii ''{"ultima_atualizacao":"t","posicional":[]}'' \<and>
   JSON_parse integers (body integers (fst (handler integers get_request
          (on_disk (ascii ''{"ultima_atualizacao":"t","posicional":{"a":null}}''))))) =
     Inr (Object [(ultima_atualizacao, String (ascii ''t'')), (posicional, Array [] [])]) \<and>
   exhausts_stack integers
     (Object (put_property [(posicional, String (ascii ''x'')),
                            (ascii ''fundo'', nest 4500 (Array [] []))]
                posicional (Array [] []))) \<and>
   fst (handler integers get_request
     (on_disk (ascii ''{"posicional":"x","fundo":'' @ brackets 4500 @ ascii ''}''))) =
     \<lparr>status = 500, payload = failure_document\<rparr>\<close>
proof -
  let ?ps = "[(ultima_atualizacao, String (ascii ''t'')),
              (posicional, Object [(ascii ''a'', Null :: int jsval)])]"
  have p: \<open>JSON_parse integers (ascii ''{"ultima_atualizacao":"t","posicional":{"a":null}}'') =
     Inr (Object ?ps)\<close>
    by code_simp
  have a: "map_of ?ps posicional = Some (Object [(ascii ''a'', Null)])"
    by code_simp
  have n: "\<not> Array_isArray (Some (Object [(ascii ''a'', Null :: int jsval)]))"
    by simp
  have q: "put_property ?ps posicional (Array [] []) =
     [(ultima_atualizacao, String (ascii ''t'')), (posicional, Array [] [])]"
    by code_simp
  have d: "\<not> exhausts_stack integers (Object (put_property ?ps posicional (Array [] [])))"
    unfolding q by code_simp
  have m: "numbers_survive integers (Object (put_property ?ps posicional (Array [] [])))"
    unfolding q by code_simp
  note c = non_array_posicional_emptied [OF on_disk_exists on_disk_read p a n,
      where req = get_request, THEN conjunct1, rule_format, OF d]
  from c have t: \<open>fst (handler integers get_request
          (on_disk (ascii ''{"ultima_atualizacao":"t","posicional":{"a":null}}''))) =
     \<lparr>status = 200,
      payload = Object [(ultima_atualizacao, String (ascii ''t'')), (posicional, Array [] [])]\<rparr>\<close>
    unfolding q by (rule conjunct1)
  from c [THEN conjunct2, THEN conjunct2, THEN conjunct2, rule_format, OF m]
  have j: \<open>JSON_parse integers (body integers (fst (handler integers get_request
          (on_disk (ascii ''{"ultima_atualizacao":"t","posicional":{"a":null}}''))))) =
     Inr (Object [(ultima_atualizacao, String (ascii ''t'')), (posicional, Array [] [])])\<close>
    unfolding q .
  have s: \<open>serialize integers
       (Object [(ultima_atualizacao, String (ascii ''t'')), (posicional, Array [] [])]) =
     ascii ''{"ultima_atualizacao":"t","posicional":[]}''\<close>
    by code_simp
  have b: \<open>body integers (fst (handler integers get_request
          (on_disk (ascii ''{"ultima_atualizacao":"t","posicional":{"a":null}}'')))) =
     ascii ''{"ultima_atualizacao":"t","posicional":[]}''\<close>
    unfolding body_def t by (simp only: response.simps s)
  let ?qs = "[(posicional, String (ascii ''x'')),
              (ascii ''fundo'', nest 4500 (Array [] [] :: int jsval))]"
  have f: "ascii ''fundo'' \<noteq> posicional" by code_simp
  then have q': "put_property ?qs posicional (Array [] []) =
      [(posicional, Array [] []), (ascii ''fundo'', nest 4500 (Array [] []))]"
    by (simp add: put_property_def)
  have e: "exhausts_stack integers (Object (put_property ?qs posicional (Array [] [])))"
    unfolding q' by (simp add: exhausts_stack_def integers_overflow depth_nest)
  have a': "map_of ?qs posicional = Some (String (ascii ''x''))"
    by simp
  have n': "\<not> Array_isArray (Some (String (ascii ''x'') :: int jsval))"
    by simp
  note u = non_array_posicional_emptied [OF on_disk_exists on_disk_read parse_fundo a' n',
      where req = get_request, THEN conjunct2, rule_format, OF e]
  show ?thesis
    by (rule conjI [OF p conjI [OF n conjI [OF t conjI [OF b conjI [OF j conjI [OF e u]]]]]])
qed

text \<open>
  Claim C7. When the path exists and \<open>readFileSync\<close> throws, the handler answers 500
  with the fixed failure document, whatever the error; the error itself goes to the
  console, after the prefix \<open>[ERRO] Lendo saida_posicional.json:\<close>, and nothing else
  of the world changes.
\<close>

theorem read_error_logged_not_returned:
  assumes "existsSync w SAIDA_PATH" and "readFileSync w SAIDA_PATH = Inl err"
  shows "fst (handler N req w) = \<lparr>status = 500, payload = failure_document\<rparr> \<and>
         snd (handler N req w) =
           w\<lparr>console := console w @ [(ascii ''[ERRO] Lendo saida_posicional.json:'', err)]\<rparr>"
  using assms
  by (simp add: handler_failure try_block_read_error console_error_def)

theorem read_error_logged_not_returned_witness:
  "existsSync (unreadable (SystemError ''EISDIR'')) SAIDA_PATH \<and>
   readFileSync (unreadable (SystemError ''EISDIR'')) SAIDA_PATH = Inl (SystemError ''EISDIR'') \<and>
   fst (handler integers get_request (unreadable (SystemError ''EISDIR''))) =
     \<lparr>status = 500, payload = failure_document\<rparr> \<and>
   snd (handler integers get_request (unreadable (SystemError ''EISDIR''))) =
     (unreadable (SystemError ''EISDIR''))
       \<lparr>console := console (unreadable (SystemError ''EISDIR'')) @
          [(ascii ''[ERRO] Lendo saida_posicional.json:'', SystemError ''EISDIR'')]\<rparr>"
  by (intro conjI unreadable_exists unreadable_read
        read_error_logged_not_returned [OF unreadable_exists unreadable_read, THEN conjunct1]
        read_error_logged_not_returned [OF unreadable_exists unreadable_read, THEN conjunct2])

text \<open>
  Claim C8. The response is a function of what \<open>existsSync\<close> and \<open>readFileSync\<close>
  return for the configured path: two invocations that observe the same of both, for any
  two requests and whatever else the two worlds hold, give the same status, the same
  document and the same body; and a second invocation right after a first one answers as
  the first did.
\<close>

theorem response_determined_by_artifact:
  assumes "existsSync w1 SAIDA_PATH = existsSync w2 SAIDA_PATH"
    and "readFileSync w1 SAIDA_PATH = readFileSync w2 SAIDA_PATH"
  shows "fst (handler N req1 w1) = fst (handler N req2 w2) \<and>
         body N (fst (handler N req1 w1)) = body N (fst (handler N req2 w2)) \<and>
         fst (handler N req2 (snd (handler N req1 w1))) = fst (handler N req1 w1)"
proof -
  have one: "fst (handler N req1 w1) = fst (handler N req2 w2)"
    using try_block_cong [OF assms, of N] by (simp add: handler_def split: sum.splits)
  have "files (snd (handler N req1 w1)) = files w1" by (rule handler_files)
  then have "try_block N (snd (handler N req1 w1)) = try_block N w1"
    by (intro try_block_cong) (simp_all add: existsSync_def readFileSync_def)
  then have two: "fst (handler N req2 (snd (handler N req1 w1))) = fst (handler N req1 w1)"
    by (simp add: handler_def [of N req2] handler_def [of N req1 w1] split: sum.splits)
  from one two show ?thesis by simp
qed

theorem response_determined_by_artifact_witness:
  \<open>existsSync (on_disk (ascii ''{"posicional":[]}'')) SAIDA_PATH =
     existsSync (busy_world (ascii ''{"posicional":[]}'')) SAIDA_PATH \<and>
   readFileSync (on_disk (ascii ''{"posicional":[]}'')) SAIDA_PATH =
     readFileSync (busy_world (ascii ''{"posicional":[]}'')) SAIDA_PATH \<and>
   on_disk (ascii ''{"posicional":[]}'') \<noteq> busy_world (ascii ''{"posicional":[]}'') \<and>
   fst (handler integers get_request (on_disk (ascii ''{"posicional":[]}''))) =
     fst (handler integers other_request (busy_world (ascii ''{"posicional":[]}''))) \<and>
   body integers (fst (handler integers get_request (on_disk (ascii ''{"posicional":[]}'')))) =
     body integers
       (fst (handler integers other_request (busy_world (ascii ''{"posicional":[]}'')))) \<and>
   fst (handler integers other_request
          (snd (handler integers get_request (on_disk (ascii ''{"posicional":[]}''))))) =
     fst (handler integers get_request (on_disk (ascii ''{"posicional":[]}'')))\<close>
proof -
  have e: \<open>existsSync (on_disk (ascii ''{"posicional":[]}'')) SAIDA_PATH =
     existsSync (busy_world (ascii ''{"posicional":[]}'')) SAIDA_PATH\<close>
    by (simp add: on_disk_exists busy_world_exists)
  have r: \<open>readFileSync (on_disk (ascii ''{"posicional":[]}'')) SAIDA_PATH =
     readFileSync (busy_world (ascii ''{"posicional":[]}'')) SAIDA_PATH\<close>
    by (simp add: on_disk_read busy_world_read)
  have d: \<open>on_disk (ascii ''{"posicional":[]}'') \<noteq> busy_world (ascii ''{"posicional":[]}'')\<close>
    by (simp add: on_disk_def busy_world_def)
  show ?thesis
    by (rule conjI [OF e conjI [OF r conjI [OF d response_determined_by_artifact [OF e r]]]])
qed




text \<open>
  Claim C10. Whenever the \<open>catch\<close> clause is reached, whatever the exception (an error
  of \<open>readFileSync\<close> or the SyntaxError of \<open>JSON.parse\<close>), the handler answers 500 and
  the body is exactly the object with the single key \<open>erro\<close> and the fixed message
  \<open>Falha ao ler dados de sa(U+00ED)da\<close>, the same for every exception.
\<close>

theorem failure_body_fixed:
  assumes "try_block N w = Inl err"
  shows \<open>fst (handler N req w) = \<lparr>status = 500, payload = failure_document\<rparr> \<and>
         body N (fst (handler N req w)) =
           ascii ''{"erro":"Falha ao ler dados de sa'' @ [0xED] @ ascii ''da"}''\<close>
  using assms by (simp add: handler_failure body_def serialize_failure_document)

theorem failure_body_fixed_witness:
  \<open>try_block integers (unreadable (SystemError ''EACCES'')) = Inl (SystemError ''EACCES'') \<and>
   try_block integers (on_disk (ascii ''{"posicional":'')) = Inl SyntaxError \<and>
   (fst (handler integers get_request (unreadable (SystemError ''EACCES''))) =
      \<lparr>status = 500, payload = failure_document\<rparr> \<and>
    body integers (fst (handler integers get_request (unreadable (SystemError ''EACCES'')))) =
      ascii ''{"erro":"Falha ao ler dados de sa'' @ [0xED] @ ascii ''da"}'') \<and>
   (fst (handler integers get_request (on_disk (ascii ''{"posicional":''))) =
      \<lparr>status = 500, payload = failure_document\<rparr> \<and>
    body integers (fst (handler integers get_request (on_disk (ascii ''{"posicional":'')))) =
      ascii ''{"erro":"Falha ao ler dados de sa'' @ [0xED] @ ascii ''da"}'')\<close>
proof -
  have a: "try_block integers (unreadable (SystemError ''EACCES'')) = Inl (SystemError ''EACCES'')"
    by (rule try_block_read_error [OF unreadable_exists unreadable_read])
  have p: \<open>JSON_parse integers (ascii ''{"posicional":'') = Inl SyntaxError\<close>
    by code_simp
  have b: \<open>try_block integers (on_disk (ascii ''{"posicional":'')) = Inl SyntaxError\<close>
    by (rule try_block_parse_error [OF on_disk_exists on_disk_read p])
  show ?thesis
    by (rule conjI [OF a conjI [OF b conjI [OF failure_body_fixed [OF a] failure_body_fixed [OF b]]]])
qed

end
